theory Spec2Isabelle
  imports Complex_Main
begin

section \<open>Text: Python strings and the text processor\<close>

text \<open>
  A Python \<open>str\<close> is a sequence of Unicode code points; a code point is a natural
  number here.  \<open>pystr\<close> turns an ASCII literal into such a sequence.
\<close>

type_synonym pystr = "nat list"

definition pystr :: "string \<Rightarrow> pystr" where
  "pystr s = map of_char s"

text \<open>The space character, \<open>' '\<close>.\<close>

definition SP :: nat where
  "SP = 32"

text \<open>
  Whitespace as \<open>str.split()\<close>, \<open>str.strip()\<close> and the pattern \<open>\s\<close> of a
  \<open>str\<close> regular expression see it: CPython's \<open>Py_UNICODE_ISSPACE\<close>.
\<close>

definition is_space :: "nat \<Rightarrow> bool" where
  "is_space c \<longleftrightarrow>
     (9 \<le> c \<and> c \<le> 13) \<or> (28 \<le> c \<and> c \<le> 32) \<or> c = 133 \<or> c = 160 \<or> c = 5760 \<or>
     (8192 \<le> c \<and> c \<le> 8202) \<or> c = 8232 \<or> c = 8233 \<or> c = 8239 \<or> c = 8287 \<or>
     c = 12288"

text \<open>
  The pattern \<open>\w\<close>: an alphanumeric code point or the underscore.  The table of
  alphanumeric code points is the Unicode database of the interpreter; it is the
  parameter \<open>alnum\<close> of everything that cleans text.
\<close>

definition is_word :: "(nat \<Rightarrow> bool) \<Rightarrow> nat \<Rightarrow> bool" where
  "is_word alnum c \<longleftrightarrow> alnum c \<or> c = 95"

text \<open>The character class \<open>[^\w\s]\<close>.\<close>

definition is_special :: "(nat \<Rightarrow> bool) \<Rightarrow> nat \<Rightarrow> bool" where
  "is_special alnum c \<longleftrightarrow> \<not> is_word alnum c \<and> \<not> is_space c"

text \<open>The ASCII part of the alphanumeric table, for concrete runs.\<close>

definition ascii_alnum :: "nat \<Rightarrow> bool" where
  "ascii_alnum c \<longleftrightarrow> (48 \<le> c \<and> c \<le> 57) \<or> (65 \<le> c \<and> c \<le> 90) \<or> (97 \<le> c \<and> c \<le> 122)"

text \<open>
  \<open>text.split()\<close>: skip whitespace, collect the characters up to the next whitespace
  as one word, repeat.
\<close>

function split_ws :: "pystr \<Rightarrow> pystr list" where
  "split_ws [] = []"
| "split_ws (c # cs) =
     (if is_space c then split_ws cs
      else (c # takeWhile (\<lambda>x. \<not> is_space x) cs) #
           split_ws (dropWhile (\<lambda>x. \<not> is_space x) cs))"
  by pat_completeness auto
termination
  by (relation "measure length") (auto intro: le_imp_less_Suc length_dropWhile_le)

text \<open>\<open>' '.join(words)\<close>.\<close>

fun join_sp :: "pystr list \<Rightarrow> pystr" where
  "join_sp [] = []"
| "join_sp [w] = w"
| "join_sp (w # v # ws) = w @ SP # join_sp (v # ws)"

text \<open>
  \<open>re.sub(r'[^\w\s]{3,}', ' ', text)\<close>: the scan goes from left to right; where
  three or more special characters start, the greedy match takes the whole run and a
  single space replaces it; any other character is copied.
\<close>

function sub_special :: "(nat \<Rightarrow> bool) \<Rightarrow> pystr \<Rightarrow> pystr" where
  "sub_special alnum [] = []"
| "sub_special alnum (c # cs) =
     (if 3 \<le> length (takeWhile (is_special alnum) (c # cs))
      then SP # sub_special alnum (dropWhile (is_special alnum) cs)
      else c # sub_special alnum cs)"
  by pat_completeness auto
termination
  by (relation "measure (\<lambda>(alnum, s). length s)")
     (auto intro: le_imp_less_Suc length_dropWhile_le)

text \<open>\<open>re.sub(r'\s+', ' ', text)\<close>: every maximal run of whitespace becomes one space.\<close>

function sub_spaces :: "pystr \<Rightarrow> pystr" where
  "sub_spaces [] = []"
| "sub_spaces (c # cs) =
     (if is_space c then SP # sub_spaces (dropWhile is_space cs) else c # sub_spaces cs)"
  by pat_completeness auto
termination
  by (relation "measure length") (auto intro: le_imp_less_Suc length_dropWhile_le)

text \<open>\<open>text.strip()\<close>: leading and trailing whitespace removed.\<close>

definition strip :: "pystr \<Rightarrow> pystr" where
  "strip s = rev (dropWhile is_space (rev (dropWhile is_space s)))"

text \<open>\<open>TextProcessor.clean_for_embedding\<close>.\<close>

definition clean_for_embedding :: "(nat \<Rightarrow> bool) \<Rightarrow> pystr \<Rightarrow> pystr" where
  "clean_for_embedding alnum text =
     (if text = [] then []
      else strip (sub_spaces (sub_special alnum (join_sp (split_ws text)))))"

text \<open>
  What the second clause of the idempotence claim calls a run of three or more
  non-word, non-space characters: \<open>no_long_run\<close> holds when no position of the string
  starts one.
\<close>

fun no_long_run :: "(nat \<Rightarrow> bool) \<Rightarrow> pystr \<Rightarrow> bool" where
  "no_long_run alnum [] = True"
| "no_long_run alnum (c # cs) =
     (length (takeWhile (is_special alnum) (c # cs)) < 3 \<and> no_long_run alnum cs)"

text \<open>
  Two notions used to state what the cleaned text looks like: \<open>norm_ws\<close> rejoins
  the words of a string with single spaces, and \<open>rstrip\<close> is the right half of
  \<open>strip\<close>.
\<close>

definition norm_ws :: "pystr \<Rightarrow> pystr" where
  "norm_ws s = join_sp (split_ws s)"

definition rstrip :: "pystr \<Rightarrow> pystr" where
  "rstrip s = rev (dropWhile is_space (rev s))"

definition words_ok :: "pystr list \<Rightarrow> bool" where
  "words_ok ws \<longleftrightarrow> list_all (\<lambda>w. w \<noteq> [] \<and> list_all (\<lambda>c. \<not> is_space c) w) ws"

section \<open>Vectors and scores\<close>

text \<open>
  Scores and vector components are real numbers: rounding of the arithmetic,
  infinities and NaN are outside this model.  The one conversion between
  floating-point types that the code's comparisons depend on, that of the threshold
  in the batch form, is modelled (\<open>to_float32\<close> below).  An embedding matrix is the
  list of its rows.

  The conditions the code can end in: an index out of range, operands whose shapes do
  not fit (NumPy's \<open>ValueError\<close>), and NumPy's divide-by-zero condition of a
  floating-point division (signalled as a warning or as \<open>FloatingPointError\<close>,
  depending on \<open>np.seterr\<close>).
\<close>

type_synonym vec = "real list"

datatype error = IndexError | ValueError | DivideByZero

text \<open>\<open>np.linalg.norm\<close> of a flat vector, and \<open>np.dot\<close> of two flat vectors.\<close>

definition np_norm :: "vec \<Rightarrow> real" where
  "np_norm v = sqrt (sum_list (map (\<lambda>x. x * x) v))"

definition dot :: "vec \<Rightarrow> vec \<Rightarrow> real" where
  "dot u v = sum_list (map (\<lambda>(x, y). x * y) (zip u v))"

definition np_dot_vv :: "vec \<Rightarrow> vec \<Rightarrow> error + real" where
  "np_dot_vv u v = (if length u = length v then Inr (dot u v) else Inl ValueError)"

definition np_divide :: "real \<Rightarrow> real \<Rightarrow> error + real" where
  "np_divide a b = (if b = 0 then Inl DivideByZero else Inr (a / b))"

text \<open>\<open>SimilarityService.compute_cosine_similarity\<close>.\<close>

definition compute_cosine_similarity :: "vec \<Rightarrow> vec \<Rightarrow> error + real" where
  "compute_cosine_similarity vec1 vec2 =
     (let norm1 = np_norm vec1; norm2 = np_norm vec2 in
      if norm1 = 0 \<or> norm2 = 0 then Inr 0
      else case np_dot_vv vec1 vec2 of
             Inl e \<Rightarrow> Inl e
           | Inr d \<Rightarrow> np_divide d (norm1 * norm2))"

text \<open>
  \<open>np.dot(entry_embeddings, query_embedding)\<close>, a matrix times a vector, and
  \<open>np.dot(query_embeddings, entry_embeddings.T)\<close>, a matrix times a transposed
  matrix.  Both need the row lengths to agree.
\<close>

definition np_dot_mv :: "vec list \<Rightarrow> vec \<Rightarrow> error + real list" where
  "np_dot_mv m v =
     (if list_all (\<lambda>row. length row = length v) m then Inr (map (\<lambda>row. dot row v) m)
      else Inl ValueError)"

definition np_dot_mmT :: "vec list \<Rightarrow> vec list \<Rightarrow> error + real list list" where
  "np_dot_mmT a b =
     (if list_all (\<lambda>ra. list_all (\<lambda>rb. length ra = length rb) b) a
      then Inr (map (\<lambda>ra. map (\<lambda>rb. dot ra rb) b) a)
      else Inl ValueError)"

text \<open>
  Comparing an element of a NumPy array with a Python \<open>float\<close> converts the Python
  number to the element's type first (NumPy 2, NEP 50).  For the single-precision
  embeddings of the sentence-transformer that conversion is \<open>to_float32\<close>: rounding
  to the nearest number with a 24-bit significand and an exponent from -126 to 127,
  ties to the even significand (overflow to infinity is outside the model).  For a
  double-precision array the conversion changes nothing.
\<close>

definition round_half_even :: "real \<Rightarrow> int" where
  "round_half_even y =
     (let f = \<lfloor>y\<rfloor> in
      if y - of_int f < 1 / 2 then f
      else if 1 / 2 < y - of_int f then f + 1
      else if even f then f else f + 1)"

definition float32_exponent :: "real \<Rightarrow> int" where
  "float32_exponent x =
     int (length (filter (\<lambda>k. 2 ^ k \<le> \<bar>x\<bar>) [0 ..< 128])) - 1 -
     int (length (filter (\<lambda>k. \<bar>x\<bar> * 2 ^ k < 1) [1 ..< 126]))"

definition to_float32 :: "real \<Rightarrow> real" where
  "to_float32 x =
     (let e = float32_exponent x in
      if 23 \<le> e then of_int (round_half_even (x / 2 ^ nat (e - 23))) * 2 ^ nat (e - 23)
      else of_int (round_half_even (x * 2 ^ nat (23 - e))) / 2 ^ nat (23 - e))"

section \<open>The similarity service\<close>

text \<open>
  The sentence-transformer model is not part of the repository: \<open>model.encode\<close> is the
  parameter \<open>encode\<close>, a function from the batch of cleaned texts to the matrix of
  their embeddings.
\<close>

type_synonym encoder = "pystr list \<Rightarrow> vec list"

text \<open>\<open>SIMILARITY_THRESHOLD\<close> and \<open>TOP_K\<close>.\<close>

definition SIMILARITY_THRESHOLD :: real where
  "SIMILARITY_THRESHOLD = 3 / 10"

definition TOP_K :: int where
  "TOP_K = 5"

text \<open>\<open>SimilarityService.get_embeddings\<close>.\<close>

definition get_embeddings :: "encoder \<Rightarrow> (nat \<Rightarrow> bool) \<Rightarrow> pystr list \<Rightarrow> vec list" where
  "get_embeddings encode alnum texts =
     (if texts = [] then [] else encode (map (clean_for_embedding alnum) texts))"

text \<open>
  \<open>top_k or self.TOP_K\<close> and \<open>threshold or self.SIMILARITY_THRESHOLD\<close>: the
  default replaces every falsy value, that is \<open>None\<close> and zero.
\<close>

definition effective_top_k :: "int option \<Rightarrow> int" where
  "effective_top_k top_k =
     (case top_k of None \<Rightarrow> TOP_K | Some k \<Rightarrow> if k = 0 then TOP_K else k)"

definition effective_threshold :: "real option \<Rightarrow> real" where
  "effective_threshold threshold =
     (case threshold of
        None \<Rightarrow> SIMILARITY_THRESHOLD
      | Some t \<Rightarrow> if t = 0 then SIMILARITY_THRESHOLD else t)"

text \<open>
  \<open>[(i, entry) for i, entry in enumerate(entries) if entry and entry.strip()]\<close>.
\<close>

definition valid_data :: "pystr list \<Rightarrow> (nat \<times> pystr) list" where
  "valid_data entries =
     filter (\<lambda>(i, entry). entry \<noteq> [] \<and> strip entry \<noteq> []) (enumerate 0 entries)"

text \<open>\<open>xs[0]\<close>.\<close>

definition index0 :: "'a list \<Rightarrow> error + 'a" where
  "index0 xs = (case xs of [] \<Rightarrow> Inl IndexError | x # _ \<Rightarrow> Inr x)"

text \<open>
  The loop that builds \<open>scored_entries\<close>: position \<open>i\<close> of \<open>valid_data\<close> reads
  \<open>similarities[i]\<close> and is kept when that score is at least the threshold.
\<close>

fun score_loop :: "real list \<Rightarrow> real \<Rightarrow> nat \<Rightarrow> (nat \<times> pystr) list \<Rightarrow> error + (nat \<times> real) list" where
  "score_loop similarities threshold i [] = Inr []"
| "score_loop similarities threshold i ((orig_idx, entry) # rest) =
     (if i < length similarities then
        (let sim_score = similarities ! i in
         case score_loop similarities threshold (Suc i) rest of
           Inl e \<Rightarrow> Inl e
         | Inr scored \<Rightarrow>
             Inr (if sim_score \<ge> threshold then (orig_idx, sim_score) # scored else scored))
      else Inl IndexError)"

text \<open>
  The pairs the loop looks at: the original index of every valid entry with its
  similarity to the query, in input order (and none where the function returns before
  it embeds anything).  What \<open>find_similar_entries\<close> returns is stated against
  this list.
\<close>

definition candidate_scores ::
  "encoder \<Rightarrow> (nat \<Rightarrow> bool) \<Rightarrow> pystr \<Rightarrow> pystr list \<Rightarrow> error + (nat \<times> real) list" where
  "candidate_scores encode alnum query entries =
     (if query = [] \<or> entries = [] \<or> valid_data entries = [] \<or> strip query = [] then Inr []
      else
        case index0 (get_embeddings encode alnum [query]) of
          Inl e \<Rightarrow> Inl e
        | Inr query_embedding \<Rightarrow>
            (case np_dot_mv (get_embeddings encode alnum (map snd (valid_data entries)))
                    query_embedding of
               Inl e \<Rightarrow> Inl e
             | Inr similarities \<Rightarrow>
                 if length (valid_data entries) \<le> length similarities
                 then Inr (zip (map fst (valid_data entries)) similarities)
                 else Inl IndexError))"

text \<open>
  The order of a ranking: a higher score comes first, and of two equal scores the one
  that stood earlier in the caller's list comes first.
\<close>

definition ranks_before :: "nat \<times> real \<Rightarrow> nat \<times> real \<Rightarrow> bool" where
  "ranks_before a b \<longleftrightarrow> snd a > snd b \<or> (snd a = snd b \<and> fst a < fst b)"

text \<open>
  \<open>scored_entries.sort(key=lambda x: x[1], reverse=True)\<close>: CPython reverses the
  list, sorts it stably by ascending key, and reverses the result.
\<close>

definition sort_desc :: "(nat \<times> real) list \<Rightarrow> (nat \<times> real) list" where
  "sort_desc xs = rev (sort_key snd (rev xs))"

text \<open>\<open>xs[:k]\<close>; a negative \<open>k\<close> counts from the end.\<close>

definition py_slice_to :: "'a list \<Rightarrow> int \<Rightarrow> 'a list" where
  "py_slice_to xs k =
     (if 0 \<le> k then take (nat k) xs else take (length xs - nat (- k)) xs)"

text \<open>
  \<open>SimilarityService.find_similar_entries\<close>, in two parts: \<open>find_similar_scored\<close>
  is the value of \<open>scored_entries[:top_k]\<close> after the sort (and the empty list where
  the function returns early), \<open>find_similar_entries\<close> maps its indices back to the
  caller's entries.
\<close>

definition find_similar_scored ::
  "encoder \<Rightarrow> (nat \<Rightarrow> bool) \<Rightarrow> pystr \<Rightarrow> pystr list \<Rightarrow> int option \<Rightarrow> real option \<Rightarrow>
   error + (nat \<times> real) list" where
  "find_similar_scored encode alnum query entries top_k threshold =
     (if query = [] \<or> entries = [] then Inr []
      else
        let top_k' = effective_top_k top_k;
            threshold' = effective_threshold threshold;
            vd = valid_data entries
        in
          if vd = [] \<or> strip query = [] then Inr []
          else
            let valid_entries = map snd vd in
            case index0 (get_embeddings encode alnum [query]) of
              Inl e \<Rightarrow> Inl e
            | Inr query_embedding \<Rightarrow>
                (case np_dot_mv (get_embeddings encode alnum valid_entries) query_embedding of
                   Inl e \<Rightarrow> Inl e
                 | Inr similarities \<Rightarrow>
                     (case score_loop similarities threshold' 0 vd of
                        Inl e \<Rightarrow> Inl e
                      | Inr scored_entries \<Rightarrow>
                          Inr (py_slice_to (sort_desc scored_entries) top_k'))))"

definition find_similar_entries ::
  "encoder \<Rightarrow> (nat \<Rightarrow> bool) \<Rightarrow> pystr \<Rightarrow> pystr list \<Rightarrow> int option \<Rightarrow> real option \<Rightarrow>
   error + pystr list" where
  "find_similar_entries encode alnum query entries top_k threshold =
     (case find_similar_scored encode alnum query entries top_k threshold of
        Inl e \<Rightarrow> Inl e
      | Inr scored \<Rightarrow> Inr (map (\<lambda>(idx, score). entries ! idx) scored))"

text \<open>
  \<open>SimilarityService.find_similar_entries_batch\<close>.  The list comprehension over
  \<open>range(len(valid_data))\<close> reads \<open>similarities[i]\<close> at every position.  Its
  condition \<open>similarities[i] >= threshold\<close> compares the array element itself, not
  \<open>float(similarities[i])\<close> as the single-query loop does, so the threshold is
  converted to the type of the array's elements before the comparison: \<open>to_dtype\<close>
  is that conversion, \<open>to_float32\<close> for single-precision embeddings and the identity
  for double-precision ones.  The score that is stored is \<open>float(similarities[i])\<close>.
\<close>

definition scored_comprehension ::
  "(real \<Rightarrow> real) \<Rightarrow> real list \<Rightarrow> real \<Rightarrow> (nat \<times> pystr) list \<Rightarrow>
   error + (nat \<times> real) list" where
  "scored_comprehension to_dtype similarities threshold vd =
     (if length vd \<le> length similarities
      then Inr (map (\<lambda>i. (fst (vd ! i), similarities ! i))
                 (filter (\<lambda>i. similarities ! i \<ge> to_dtype threshold) [0 ..< length vd]))
      else Inl IndexError)"

fun batch_loop ::
  "(real \<Rightarrow> real) \<Rightarrow> real list list \<Rightarrow> (nat \<times> pystr) list \<Rightarrow> pystr list \<Rightarrow> int \<Rightarrow> real \<Rightarrow>
   nat \<Rightarrow> pystr list \<Rightarrow> error + pystr list list" where
  "batch_loop to_dtype similarity_matrix vd entries top_k threshold q_idx [] = Inr []"
| "batch_loop to_dtype similarity_matrix vd entries top_k threshold q_idx (query # rest) =
     (if query = [] \<or> strip query = [] then
        (case batch_loop to_dtype similarity_matrix vd entries top_k threshold (Suc q_idx) rest of
           Inl e \<Rightarrow> Inl e
         | Inr results \<Rightarrow> Inr ([] # results))
      else if q_idx < length similarity_matrix then
        (case scored_comprehension to_dtype (similarity_matrix ! q_idx) threshold vd of
           Inl e \<Rightarrow> Inl e
         | Inr scored_entries \<Rightarrow>
             (case batch_loop to_dtype similarity_matrix vd entries top_k threshold (Suc q_idx)
                     rest of
                Inl e \<Rightarrow> Inl e
              | Inr results \<Rightarrow>
                  Inr (map (\<lambda>(idx, score). entries ! idx)
                         (py_slice_to (sort_desc scored_entries) top_k) # results)))
      else Inl IndexError)"

definition find_similar_entries_batch ::
  "encoder \<Rightarrow> (nat \<Rightarrow> bool) \<Rightarrow> (real \<Rightarrow> real) \<Rightarrow> pystr list \<Rightarrow> pystr list \<Rightarrow> int option \<Rightarrow>
   real option \<Rightarrow> error + pystr list list" where
  "find_similar_entries_batch encode alnum to_dtype queries entries top_k threshold =
     (if queries = [] \<or> entries = [] then Inr (if queries \<noteq> [] then map (\<lambda>_. []) queries else [])
      else
        let top_k' = effective_top_k top_k;
            threshold' = effective_threshold threshold;
            vd = valid_data entries
        in
          if vd = [] then Inr (map (\<lambda>_. []) queries)
          else
            let valid_entries = map snd vd;
                query_embeddings = get_embeddings encode alnum queries;
                entry_embeddings = get_embeddings encode alnum valid_entries
            in
              case np_dot_mmT query_embeddings entry_embeddings of
                Inl e \<Rightarrow> Inl e
              | Inr similarity_matrix \<Rightarrow>
                  batch_loop to_dtype similarity_matrix vd entries top_k' threshold' 0 queries)"

text \<open>
  What the batch form computes at position \<open>j\<close> of \<open>queries\<close>, written without
  the loop: nothing for a blank query (or when no entry is valid), and otherwise the
  ranking of the valid entries by row \<open>j\<close> of the similarity matrix, filtered against
  the converted threshold.
\<close>

definition batch_row ::
  "encoder \<Rightarrow> (nat \<Rightarrow> bool) \<Rightarrow> (real \<Rightarrow> real) \<Rightarrow> pystr list \<Rightarrow> pystr list \<Rightarrow> int option \<Rightarrow>
   real option \<Rightarrow> nat \<Rightarrow> pystr list" where
  "batch_row encode alnum to_dtype queries entries top_k threshold j =
     (if entries = [] \<or> valid_data entries = [] \<or> strip (queries ! j) = [] then []
      else
        map (\<lambda>(idx, score). entries ! idx)
          (py_slice_to
             (sort_desc
                (filter (\<lambda>(idx, s). s \<ge> to_dtype (effective_threshold threshold))
                   (zip (map fst (valid_data entries))
                      (map (\<lambda>row. dot (get_embeddings encode alnum queries ! j) row)
                         (get_embeddings encode alnum (map snd (valid_data entries)))))))
             (effective_top_k top_k)))"

section \<open>The request handler\<close>

text \<open>
  The \<open>/similarity\<close> handler of \<open>main.py\<close> (also called \<open>find_similar_entries\<close>
  there), on a request that passed the field validation.  Logging and timing have no
  effect on the response.
\<close>

record SimilarityRequest =
  req_user_id :: pystr
  req_query :: pystr
  req_entries :: "pystr list"
  req_top_k :: "int option"
  req_threshold :: "real option"

datatype http_error = HTTP_400 | HTTP_500

definition similarity_endpoint ::
  "encoder \<Rightarrow> (nat \<Rightarrow> bool) \<Rightarrow> SimilarityRequest \<Rightarrow> http_error + pystr list" where
  "similarity_endpoint encode alnum request =
     (if strip (req_query request) = [] then Inl HTTP_400
      else if req_entries request = [] then Inr []
      else
        let valid_entries = filter (\<lambda>e. e \<noteq> [] \<and> strip e \<noteq> []) (req_entries request) in
        if valid_entries = [] then Inr []
        else
          case find_similar_entries encode alnum (req_query request) valid_entries
                 (req_top_k request) (req_threshold request) of
            Inl e \<Rightarrow> Inl HTTP_500
          | Inr relevant_entries \<Rightarrow> Inr relevant_entries)"

section \<open>The embedding provider's contract, and a small provider\<close>

text \<open>
  What the service relies on: the provider returns one row per text, every row of the
  same dimension \<open>d\<close>.  \<open>per_item\<close> adds that a text's vector does not depend on
  the batch it is encoded in (the determinism the specification assumes).
\<close>

definition well_shaped :: "encoder \<Rightarrow> nat \<Rightarrow> bool" where
  "well_shaped encode d \<longleftrightarrow>
     (\<forall>texts. length (encode texts) = length texts \<and>
              list_all (\<lambda>row. length row = d) (encode texts))"

definition per_item :: "encoder \<Rightarrow> (pystr \<Rightarrow> vec) \<Rightarrow> nat \<Rightarrow> bool" where
  "per_item encode emb d \<longleftrightarrow>
     (\<forall>texts. encode texts = map emb texts) \<and> (\<forall>t. length (emb t) = d)"

text \<open>
  A provider for concrete runs: unit vectors of dimension two, chosen by the first
  character of the cleaned text.  Against the vector of a text that starts with \<open>q\<close>
  the scores are 0.28 for \<open>a\<close>, 0.6 for \<open>b\<close> and \<open>d\<close>, 0.8 for \<open>c\<close> and 0 for
  anything else.
\<close>

definition demo_embed :: "pystr \<Rightarrow> vec" where
  "demo_embed t =
     (case t of
        [] \<Rightarrow> [0, 1]
      | c # _ \<Rightarrow>
          if c = 113 then [1, 0]
          else if c = 97 then [7 / 25, 24 / 25]
          else if c = 98 then [3 / 5, 4 / 5]
          else if c = 99 then [4 / 5, 3 / 5]
          else if c = 100 then [3 / 5, - 4 / 5]
          else [0, 1])"

definition demo_encode :: encoder where
  "demo_encode texts = map demo_embed texts"

text \<open>
  A single-precision provider: every component is a multiple of \<open>2 ^ -24\<close> below 1.
  A text that starts with \<open>q\<close> gets \<open>[1, 0]\<close>; any other text gets the vector
  whose first component is the single-precision number nearest to 0.7, so that its
  similarity to \<open>q\<close> is exactly that number, 0.699999988...
\<close>

definition float32_embed :: "pystr \<Rightarrow> vec" where
  "float32_embed t =
     (case t of
        [] \<Rightarrow> [11744051 / 16777216, 11981329 / 16777216]
      | c # _ \<Rightarrow>
          if c = 113 then [1, 0] else [11744051 / 16777216, 11981329 / 16777216])"

definition float32_encode :: encoder where
  "float32_encode texts = map float32_embed texts"

section \<open>The text processor: cleaning is idempotent\<close>

lemma is_space_SP: "is_space SP"
  by (simp add: is_space_def SP_def)

lemma not_special_SP: "\<not> is_special alnum SP"
  by (simp add: is_special_def is_space_SP)

lemma not_special_space: "is_space c \<Longrightarrow> \<not> is_special alnum c"
  by (simp add: is_special_def)

lemma join_sp_Cons: "join_sp (w # ws) = w @ (if ws = [] then [] else SP # join_sp ws)"
  by (cases ws) auto

lemma split_ws_dropWhile: "split_ws (dropWhile is_space s) = split_ws s"
  by (induction s) auto

lemma split_ws_space_Cons: "is_space c \<Longrightarrow> split_ws (c # s) = split_ws s"
  by simp

lemma words_ok_split_ws: "words_ok (split_ws s)"
proof (induction s rule: split_ws.induct)
  case 1
  show ?case by (simp add: words_ok_def)
next
  case (2 c cs)
  show ?case
  proof (cases "is_space c")
    case True
    then show ?thesis using 2 by simp
  next
    case False
    have "list_all (\<lambda>c. \<not> is_space c) (takeWhile (\<lambda>x. \<not> is_space x) cs)"
      by (auto simp: list_all_iff dest: set_takeWhileD)
    then show ?thesis using False 2 by (simp add: words_ok_def)
  qed
qed

lemma split_ws_word_append:
  assumes "w \<noteq> []" "list_all (\<lambda>c. \<not> is_space c) w" "r = [] \<or> is_space (hd r)"
  shows "split_ws (w @ r) = w # split_ws r"
proof -
  obtain c cs where w: "w = c # cs" using assms(1) by (cases w) auto
  have c: "\<not> is_space c" and cs: "\<forall>x\<in>set cs. \<not> is_space x"
    using assms(2) by (auto simp: w list_all_iff)
  have tw: "takeWhile (\<lambda>x. \<not> is_space x) (cs @ r) = cs"
  proof (cases r)
    case Nil
    then show ?thesis using cs by simp
  next
    case (Cons a r')
    then show ?thesis using cs assms(3) by (simp add: takeWhile_append2)
  qed
  have dw: "dropWhile (\<lambda>x. \<not> is_space x) (cs @ r) = r"
  proof (cases r)
    case Nil
    then show ?thesis using cs by simp
  next
    case (Cons a r')
    then show ?thesis using cs assms(3) by (simp add: dropWhile_append2)
  qed
  have "split_ws (c # (cs @ r)) = (c # cs) # split_ws r"
    using c by (simp add: tw dw)
  then show ?thesis by (simp add: w)
qed

lemma split_ws_join_sp: "words_ok ws \<Longrightarrow> split_ws (join_sp ws) = ws"
proof (induction ws)
  case Nil
  show ?case by simp
next
  case (Cons w ws)
  have ok: "w \<noteq> []" "list_all (\<lambda>c. \<not> is_space c) w" "words_ok ws"
    using Cons.prems by (simp_all add: words_ok_def)
  show ?case
  proof (cases "ws = []")
    case True
    have "split_ws (w @ []) = w # split_ws []"
      using ok(1,2) by (intro split_ws_word_append) simp_all
    then show ?thesis using True by simp
  next
    case False
    have "split_ws (w @ SP # join_sp ws) = w # split_ws (SP # join_sp ws)"
      using ok(1,2) by (intro split_ws_word_append) (simp_all add: is_space_SP)
    also have "split_ws (SP # join_sp ws) = split_ws (join_sp ws)"
      by (rule split_ws_space_Cons) (rule is_space_SP)
    also have "split_ws (join_sp ws) = ws"
      by (rule Cons.IH) (rule ok(3))
    finally show ?thesis using False by (simp only: join_sp_Cons if_False)
  qed
qed

lemma norm_ws_idem: "norm_ws (norm_ws s) = norm_ws s"
  by (simp add: norm_ws_def split_ws_join_sp words_ok_split_ws)

lemma sub_special_fixed: "no_long_run alnum s \<Longrightarrow> sub_special alnum s = s"
  by (induction s) simp_all

lemma takeWhile_sub_special:
  "length (takeWhile (is_special alnum) s) < 3 \<Longrightarrow>
   takeWhile (is_special alnum) (sub_special alnum s) = takeWhile (is_special alnum) s"
proof (induction s)
  case Nil
  show ?case by simp
next
  case (Cons c cs)
  have short: "\<not> 3 \<le> length (takeWhile (is_special alnum) (c # cs))"
    using Cons.prems by simp
  have step: "sub_special alnum (c # cs) = c # sub_special alnum cs"
    using short by (simp del: takeWhile.simps)
  show ?case
  proof (cases "is_special alnum c")
    case True
    then have "length (takeWhile (is_special alnum) cs) < 3" using Cons.prems by simp
    then show ?thesis unfolding step using True Cons.IH by simp
  next
    case False
    then show ?thesis unfolding step by simp
  qed
qed

lemma no_long_run_sub_special: "no_long_run alnum (sub_special alnum s)"
proof (induction alnum s rule: sub_special.induct)
  case (1 alnum)
  show ?case by simp
next
  case (2 alnum c cs)
  show ?case
  proof (cases "3 \<le> length (takeWhile (is_special alnum) (c # cs))")
    case True
    have "sub_special alnum (c # cs) = SP # sub_special alnum (dropWhile (is_special alnum) cs)"
      using True by (simp del: takeWhile.simps)
    then show ?thesis using 2(1)[OF True] by (simp only: no_long_run.simps takeWhile.simps not_special_SP if_False list.size) simp
  next
    case False
    have step: "sub_special alnum (c # cs) = c # sub_special alnum cs"
      using False by (simp del: takeWhile.simps)
    have ih: "no_long_run alnum (sub_special alnum cs)" using 2(2)[OF False] .
    show ?thesis
    proof (cases "is_special alnum c")
      case True
      then have "length (takeWhile (is_special alnum) cs) < 2" using False by simp
      then have "takeWhile (is_special alnum) (sub_special alnum cs) = takeWhile (is_special alnum) cs"
        and "length (takeWhile (is_special alnum) cs) < 2"
        by (simp_all add: takeWhile_sub_special)
      then show ?thesis unfolding step using True ih by simp
    next
      case False
      then show ?thesis unfolding step using ih by simp
    qed
  qed
qed

lemma takeWhile_append_break:
  "b = [] \<or> \<not> P (hd b) \<Longrightarrow> takeWhile P (a @ b) = takeWhile P a"
proof (induction a)
  case Nil
  then show ?case by (cases b) auto
next
  case (Cons c a)
  then show ?case by simp
qed

lemma no_long_run_append:
  "b = [] \<or> \<not> is_special alnum (hd b) \<Longrightarrow>
   no_long_run alnum (a @ b) = (no_long_run alnum a \<and> no_long_run alnum b)"
proof (induction a)
  case Nil
  show ?case by simp
next
  case (Cons c a)
  have "takeWhile (is_special alnum) ((c # a) @ b) = takeWhile (is_special alnum) (c # a)"
    using Cons.prems by (rule takeWhile_append_break)
  then have "length (takeWhile (is_special alnum) (c # a @ b)) = length (takeWhile (is_special alnum) (c # a))"
    by simp
  then show ?case using Cons.IH[OF Cons.prems] by (auto simp del: takeWhile.simps)
qed

lemma no_long_run_dropWhile: "no_long_run alnum s \<Longrightarrow> no_long_run alnum (dropWhile P s)"
  by (induction s) simp_all

lemma split_ws_nonspace_Cons:
  "\<not> is_space c \<Longrightarrow>
   split_ws (c # cs) = (c # takeWhile (\<lambda>x. \<not> is_space x) cs) # split_ws (dropWhile (\<lambda>x. \<not> is_space x) cs)"
  by simp

lemma dropWhile_nonspace_head:
  "dropWhile (\<lambda>x. \<not> is_space x) cs = [] \<or> is_space (hd (dropWhile (\<lambda>x. \<not> is_space x) cs))"
  using hd_dropWhile[of "\<lambda>x. \<not> is_space x" cs] by auto

lemma dropWhile_space_head:
  "dropWhile is_space cs = [] \<or> \<not> is_space (hd (dropWhile is_space cs))"
  using hd_dropWhile[of is_space cs] by auto

lemma no_long_run_norm_ws: "no_long_run alnum s \<Longrightarrow> no_long_run alnum (norm_ws s)"
proof (induction s rule: split_ws.induct)
  case 1
  show ?case by (simp add: norm_ws_def)
next
  case (2 c cs)
  show ?case
  proof (cases "is_space c")
    case True
    then show ?thesis using 2 by (simp add: norm_ws_def)
  next
    case False
    define w where "w = c # takeWhile (\<lambda>x. \<not> is_space x) cs"
    define r where "r = dropWhile (\<lambda>x. \<not> is_space x) cs"
    have s: "c # cs = w @ r" by (simp add: w_def r_def)
    have r: "r = [] \<or> is_space (hd r)" unfolding r_def by (rule dropWhile_nonspace_head)
    then have r': "r = [] \<or> \<not> is_special alnum (hd r)" by (auto simp: not_special_space)
    have "no_long_run alnum (w @ r)" using 2(3) s by simp
    then have w: "no_long_run alnum w" and nr: "no_long_run alnum r"
      using no_long_run_append[OF r', of w] by simp_all
    have ih: "no_long_run alnum (norm_ws r)" using 2(2)[OF False] nr by (simp add: r_def)
    have split: "split_ws (c # cs) = w # split_ws r"
      using False by (simp add: w_def r_def)
    show ?thesis
    proof (cases "split_ws r = []")
      case True
      then show ?thesis using w by (simp only: norm_ws_def split join_sp.simps)
    next
      case False
      then have "norm_ws (c # cs) = w @ (SP # norm_ws r)"
        by (simp only: norm_ws_def split join_sp_Cons if_False)
      moreover have "no_long_run alnum (w @ (SP # norm_ws r)) =
          (no_long_run alnum w \<and> no_long_run alnum (SP # norm_ws r))"
        by (rule no_long_run_append) (simp add: not_special_SP)
      moreover have "no_long_run alnum (SP # norm_ws r)"
        using ih by (simp add: not_special_SP)
      ultimately show ?thesis using w by simp
    qed
  qed
qed

lemma strip_rstrip: "strip s = rstrip (dropWhile is_space s)"
  by (simp add: strip_def rstrip_def)

lemma rstrip_append: "rstrip b \<noteq> [] \<Longrightarrow> rstrip (a @ b) = a @ rstrip b"
proof -
  assume "rstrip b \<noteq> []"
  then have "dropWhile is_space (rev b) \<noteq> []" by (simp add: rstrip_def)
  then obtain x where "x \<in> set (rev b)" "\<not> is_space x"
    by (metis dropWhile_eq_Nil_conv)
  then have "dropWhile is_space (rev b @ rev a) = dropWhile is_space (rev b) @ rev a"
    by (rule dropWhile_append1)
  then show ?thesis by (simp add: rstrip_def)
qed

lemma rstrip_word:
  "list_all (\<lambda>c. \<not> is_space c) w \<Longrightarrow> rstrip w = w"
proof (cases "rev w")
  case Nil
  then show ?thesis by (simp add: rstrip_def)
next
  case (Cons x xs)
  assume "list_all (\<lambda>c. \<not> is_space c) w"
  then have "\<not> is_space x" using Cons by (metis list.set_intros(1) list_all_iff set_rev)
  then show ?thesis using Cons by (simp add: rstrip_def)
qed

lemma rstrip_SP: "rstrip [SP] = []"
  by (simp add: rstrip_def is_space_SP)

lemma sub_spaces_word_append:
  "list_all (\<lambda>c. \<not> is_space c) w \<Longrightarrow> sub_spaces (w @ r) = w @ sub_spaces r"
  by (induction w) simp_all

lemma dropWhile_sub_spaces:
  "dropWhile is_space (sub_spaces s) = sub_spaces (dropWhile is_space s)"
proof (induction s rule: sub_spaces.induct)
  case 1
  show ?case by simp
next
  case (2 c cs)
  show ?case
  proof (cases "is_space c")
    case True
    then show ?thesis using 2(1)[OF True] by (simp add: is_space_SP)
  next
    case False
    then show ?thesis by simp
  qed
qed

lemma norm_ws_nonempty: "s \<noteq> [] \<Longrightarrow> \<not> is_space (hd s) \<Longrightarrow> norm_ws s \<noteq> []"
  by (cases s) (simp_all add: norm_ws_def join_sp_Cons)

lemma rstrip_sub_spaces:
  "s = [] \<or> \<not> is_space (hd s) \<Longrightarrow> rstrip (sub_spaces s) = norm_ws s"
proof (induction s rule: length_induct)
  case (1 s)
  show ?case
  proof (cases s)
    case Nil
    then show ?thesis by (simp add: rstrip_def norm_ws_def)
  next
    case (Cons c cs)
    then have c: "\<not> is_space c" using 1(2) by simp
    define w where "w = c # takeWhile (\<lambda>x. \<not> is_space x) cs"
    define r where "r = dropWhile (\<lambda>x. \<not> is_space x) cs"
    define r2 where "r2 = dropWhile is_space r"
    have s: "s = w @ r" by (simp add: Cons w_def r_def)
    have wok: "list_all (\<lambda>c. \<not> is_space c) w"
      using c by (auto simp: w_def list_all_iff dest: set_takeWhileD)
    have split: "split_ws s = w # split_ws r"
      using c by (simp add: Cons w_def r_def)
    have split_r: "split_ws r = split_ws r2"
      by (simp add: r2_def split_ws_dropWhile)
    have subs: "sub_spaces s = w @ sub_spaces r"
      unfolding s using wok by (rule sub_spaces_word_append)
    have r: "r = [] \<or> is_space (hd r)" unfolding r_def by (rule dropWhile_nonspace_head)
    have r2: "r2 = [] \<or> \<not> is_space (hd r2)" unfolding r2_def by (rule dropWhile_space_head)
    have len: "length r2 < length s"
    proof -
      have "length r2 \<le> length r" unfolding r2_def by (rule length_dropWhile_le)
      also have "length r \<le> length cs" unfolding r_def by (rule length_dropWhile_le)
      finally show ?thesis by (simp add: Cons)
    qed
    have ih: "rstrip (sub_spaces r2) = norm_ws r2"
      using 1(1) len r2 by blast
    show ?thesis
    proof (cases r)
      case Nil
      then show ?thesis using wok by (simp add: subs norm_ws_def split rstrip_word)
    next
      case (Cons c' r')
      then have c': "is_space c'" using r by simp
      have r2': "r2 = dropWhile is_space r'" using c' by (simp add: r2_def Cons)
      have subr: "sub_spaces r = SP # sub_spaces r2"
        using c' by (simp add: Cons r2')
      show ?thesis
      proof (cases "r2 = []")
        case True
        have "rstrip (w @ [SP]) = w"
        proof -
          have "rev (w @ [SP]) = SP # rev w" by simp
          then have "rstrip (w @ [SP]) = rstrip w"
            by (simp add: rstrip_def is_space_SP)
          then show ?thesis using wok by (simp add: rstrip_word)
        qed
        then show ?thesis using True
          by (simp add: subs subr norm_ws_def split split_r)
      next
        case False
        then have ne: "norm_ws r2 \<noteq> []" using r2 by (simp add: norm_ws_nonempty)
        then have sne: "split_ws r2 \<noteq> []" by (auto simp: norm_ws_def)
        have "rstrip (sub_spaces s) = rstrip ((w @ [SP]) @ sub_spaces r2)"
          by (simp add: subs subr)
        also have "\<dots> = (w @ [SP]) @ rstrip (sub_spaces r2)"
          by (rule rstrip_append) (simp add: ih ne)
        also have "\<dots> = w @ SP # norm_ws r2" by (simp add: ih)
        also have "\<dots> = norm_ws s"
          using sne by (simp add: norm_ws_def split split_r join_sp_Cons)
        finally show ?thesis .
      qed
    qed
  qed
qed

lemma strip_sub_spaces: "strip (sub_spaces s) = norm_ws s"
proof -
  have "strip (sub_spaces s) = rstrip (sub_spaces (dropWhile is_space s))"
    by (simp add: strip_rstrip dropWhile_sub_spaces)
  also have "\<dots> = norm_ws (dropWhile is_space s)"
    by (rule rstrip_sub_spaces) (rule dropWhile_space_head)
  also have "\<dots> = norm_ws s"
    by (simp add: norm_ws_def split_ws_dropWhile)
  finally show ?thesis .
qed

lemma clean_for_embedding_norm:
  "clean_for_embedding alnum t = norm_ws (sub_special alnum (norm_ws t))"
  by (simp add: clean_for_embedding_def strip_sub_spaces) (simp add: norm_ws_def)

lemma no_long_run_clean: "no_long_run alnum (clean_for_embedding alnum t)"
  by (simp add: clean_for_embedding_norm no_long_run_norm_ws no_long_run_sub_special)

lemma norm_ws_clean: "norm_ws (clean_for_embedding alnum t) = clean_for_embedding alnum t"
  by (simp add: clean_for_embedding_norm norm_ws_idem)

lemma strip_norm_ws: "strip (norm_ws s) = norm_ws s"
proof -
  have "sub_spaces (norm_ws s) = norm_ws s \<Longrightarrow> ?thesis"
    using strip_sub_spaces[of "norm_ws s"] by (simp add: norm_ws_idem)
  moreover have "words_ok ws \<Longrightarrow> sub_spaces (join_sp ws) = join_sp ws" for ws
  proof (induction ws)
    case Nil
    show ?case by simp
  next
    case (Cons w ws)
    have ok: "list_all (\<lambda>c. \<not> is_space c) w" "words_ok ws"
      using Cons.prems by (simp_all add: words_ok_def)
    show ?case
    proof (cases ws)
      case Nil
      then show ?thesis using sub_spaces_word_append[OF ok(1), of "[]"] by simp
    next
      case (Cons v vs)
      have v: "v \<noteq> []" "\<not> is_space (hd v)"
        using ok(2) unfolding Cons words_ok_def by (cases v; simp)+
      have "join_sp ws \<noteq> []" "\<not> is_space (hd (join_sp ws))"
        using v unfolding Cons by (simp_all add: join_sp_Cons)
      then have "dropWhile is_space (join_sp ws) = join_sp ws"
        by (cases "join_sp ws") simp_all
      then have "sub_spaces (SP # join_sp ws) = SP # join_sp ws"
        using Cons.IH[OF ok(2)] by (simp add: is_space_SP)
      then show ?thesis
        using sub_spaces_word_append[OF ok(1), of "SP # join_sp ws"] Cons
        by (simp add: join_sp_Cons)
    qed
  qed
  ultimately show ?thesis by (simp add: norm_ws_def words_ok_split_ws)
qed

lemma strip_clean: "strip (clean_for_embedding alnum t) = clean_for_embedding alnum t"
  by (simp add: clean_for_embedding_norm strip_norm_ws)

text \<open>
  Claim C10.  \<open>clean_for_embedding\<close> is idempotent: cleaning a cleaned text changes
  nothing.  Its output is its own words joined by single spaces (so whitespace is
  collapsed and there is none at either end), and no run of three or more non-word,
  non-space characters is left in it.
\<close>

theorem clean_for_embedding_idempotent:
  "clean_for_embedding alnum (clean_for_embedding alnum t) = clean_for_embedding alnum t \<and>
   join_sp (split_ws (clean_for_embedding alnum t)) = clean_for_embedding alnum t \<and>
   strip (clean_for_embedding alnum t) = clean_for_embedding alnum t \<and>
   no_long_run alnum (clean_for_embedding alnum t)"
proof -
  let ?o = "clean_for_embedding alnum t"
  have "clean_for_embedding alnum ?o = norm_ws (sub_special alnum (norm_ws ?o))"
    by (rule clean_for_embedding_norm)
  also have "\<dots> = norm_ws (sub_special alnum ?o)" by (simp only: norm_ws_clean)
  also have "\<dots> = norm_ws ?o" by (simp only: sub_special_fixed[OF no_long_run_clean])
  also have "\<dots> = ?o" by (rule norm_ws_clean)
  finally have idem: "clean_for_embedding alnum ?o = ?o" .
  have joined: "join_sp (split_ws ?o) = ?o"
    using norm_ws_clean[of alnum t] by (simp add: norm_ws_def)
  have "strip ?o = ?o" by (rule strip_clean)
  then show ?thesis using idem joined no_long_run_clean by simp
qed

theorem clean_for_embedding_idempotent_witness:
  "clean_for_embedding ascii_alnum (pystr ''  Hello!!! ***  world  '') = pystr ''Hello world'' \<and>
   clean_for_embedding ascii_alnum (pystr ''Hello world'') = pystr ''Hello world'' \<and>
   join_sp (split_ws (pystr ''Hello world'')) = pystr ''Hello world'' \<and>
   no_long_run ascii_alnum (pystr ''Hello world'')"
proof -
  have run: "clean_for_embedding ascii_alnum (pystr ''  Hello!!! ***  world  '') = pystr ''Hello world''"
    by (simp add: clean_for_embedding_def strip_def pystr_def is_space_def is_special_def
        is_word_def ascii_alnum_def SP_def)
  show ?thesis
    using clean_for_embedding_idempotent[of ascii_alnum "pystr ''  Hello!!! ***  world  ''"]
    unfolding run by simp
qed

section \<open>Cosine similarity of degenerate vectors\<close>

text \<open>Over the reals the norm is zero exactly for the zero vector.\<close>

lemma np_norm_zero_iff: "np_norm v = 0 \<longleftrightarrow> list_all (\<lambda>x. x = 0) v"
proof -
  have nonneg: "0 \<le> sum_list (map (\<lambda>x. x * x) v)" for v :: "real list"
    by (induction v) simp_all
  have "sum_list (map (\<lambda>x. x * x) v) = 0 \<longleftrightarrow> list_all (\<lambda>x. x = 0) v"
  proof (induction v)
    case Nil
    show ?case by simp
  next
    case (Cons x v)
    have "x * x + sum_list (map (\<lambda>x. x * x) v) = 0 \<longleftrightarrow> x * x = 0 \<and> sum_list (map (\<lambda>x. x * x) v) = 0"
      using nonneg[of v] by (intro add_nonneg_eq_0_iff) simp_all
    then show ?case using Cons by simp
  qed
  then show ?thesis by (simp add: np_norm_def)
qed

text \<open>
  Claim C9.  If either vector has zero Euclidean norm, \<open>compute_cosine_similarity\<close>
  returns exactly 0 and no divide-by-zero condition arises: whatever the vectors, the
  result is never that condition, and the quotient is computed only when both norms
  are nonzero.
\<close>

theorem cosine_similarity_zero_norm:
  "(np_norm vec1 = 0 \<or> np_norm vec2 = 0 \<longrightarrow> compute_cosine_similarity vec1 vec2 = Inr 0) \<and>
   compute_cosine_similarity vec1 vec2 \<noteq> Inl DivideByZero \<and>
   (np_norm vec1 \<noteq> 0 \<and> np_norm vec2 \<noteq> 0 \<longrightarrow>
      compute_cosine_similarity vec1 vec2 =
        (case np_dot_vv vec1 vec2 of
           Inl e \<Rightarrow> Inl e
         | Inr d \<Rightarrow> Inr (d / (np_norm vec1 * np_norm vec2))))"
  by (auto simp: compute_cosine_similarity_def Let_def np_divide_def np_dot_vv_def
      split: sum.splits)

theorem cosine_similarity_zero_norm_witness:
  "np_norm [0, 0] = 0 \<and> compute_cosine_similarity [0, 0] [3, 4] = Inr 0 \<and>
   compute_cosine_similarity [3, 4] [0, 0] = Inr 0 \<and>
   compute_cosine_similarity [0, 0] [3, 4] \<noteq> Inl DivideByZero"
proof -
  have z: "np_norm [0, 0] = 0" by (simp add: np_norm_def)
  show ?thesis
    using cosine_similarity_zero_norm[of "[0, 0]" "[3, 4]"]
      cosine_similarity_zero_norm[of "[3, 4]" "[0, 0]"] z
    by simp
qed

section \<open>Ranking: the scoring loop, the sort and the slice\<close>

text \<open>
  The scoring loop returns exactly the candidates whose score reaches the threshold,
  in input order, provided \<open>similarities\<close> has a score for each of them; otherwise
  it stops with \<open>IndexError\<close>.
\<close>

lemma score_loop_filter:
  "i + length vd \<le> length sims \<Longrightarrow>
   score_loop sims thr i vd =
     Inr (filter (\<lambda>(idx, s). s \<ge> thr) (zip (map fst vd) (drop i sims)))"
proof (induction vd arbitrary: i)
  case Nil
  show ?case by simp
next
  case (Cons p vd)
  obtain orig_idx entry where p: "p = (orig_idx, entry)" by (cases p)
  have i: "i < length sims" and rest: "Suc i + length vd \<le> length sims"
    using Cons.prems by simp_all
  have d: "drop i sims = sims ! i # drop (Suc i) sims"
    using i by (simp add: Cons_nth_drop_Suc)
  show ?case using i Cons.IH[OF rest] by (simp add: p d)
qed

lemma score_loop_Inr_length:
  "score_loop sims thr i vd = Inr scored \<Longrightarrow> vd = [] \<or> i + length vd \<le> length sims"
proof (induction vd arbitrary: i scored)
  case Nil
  show ?case by simp
next
  case (Cons p vd)
  obtain orig_idx entry where p: "p = (orig_idx, entry)" by (cases p)
  have i: "i < length sims"
    using Cons.prems by (auto simp: p split: if_splits)
  obtain rest where rest: "score_loop sims thr (Suc i) vd = Inr rest"
    using Cons.prems i by (auto simp: p Let_def split: sum.splits)
  from Cons.IH[OF rest] i show ?case by auto
qed

lemma score_loop_error:
  "vd \<noteq> [] \<Longrightarrow> \<not> i + length vd \<le> length sims \<Longrightarrow> \<exists>e. score_loop sims thr i vd = Inl e"
  using score_loop_Inr_length[of sims thr i vd] by (cases "score_loop sims thr i vd") auto

lemma find_similar_scored_candidates:
  "find_similar_scored encode alnum query entries top_k threshold =
     (case candidate_scores encode alnum query entries of
        Inl e \<Rightarrow> Inl e
      | Inr cands \<Rightarrow>
          Inr (py_slice_to
                 (sort_desc (filter (\<lambda>(idx, s). s \<ge> effective_threshold threshold) cands))
                 (effective_top_k top_k)))"
proof (cases "query = [] \<or> entries = [] \<or> valid_data entries = [] \<or> strip query = []")
  case True
  then show ?thesis
    by (auto simp: find_similar_scored_def candidate_scores_def Let_def sort_desc_def py_slice_to_def)
next
  case False
  show ?thesis
  proof (cases "index0 (get_embeddings encode alnum [query])")
    case (Inl e)
    then show ?thesis using False
      by (simp add: find_similar_scored_def candidate_scores_def Let_def)
  next
    case (Inr qe)
    note qe = this
    show ?thesis
    proof (cases "np_dot_mv (get_embeddings encode alnum (map snd (valid_data entries))) qe")
      case (Inl e)
      then show ?thesis using False qe
        by (simp add: find_similar_scored_def candidate_scores_def Let_def)
    next
      case (Inr sims)
      show ?thesis
      proof (cases "length (valid_data entries) \<le> length sims")
        case True
        then have "score_loop sims (effective_threshold threshold) 0 (valid_data entries) =
            Inr (filter (\<lambda>(idx, s). s \<ge> effective_threshold threshold)
                   (zip (map fst (valid_data entries)) sims))"
          using score_loop_filter[of 0 "valid_data entries" sims] by simp
        then show ?thesis using False qe Inr True
          by (simp add: find_similar_scored_def candidate_scores_def Let_def)
      next
        case len: False
        have "valid_data entries \<noteq> []" using False by simp
        then obtain e where "score_loop sims (effective_threshold threshold) 0 (valid_data entries) = Inl e"
          using score_loop_error[of "valid_data entries" 0 sims] len by auto
        moreover have "e = IndexError" if "score_loop sims thr i vd = Inl e" for thr i vd e
          using that by (induction vd arbitrary: i) (auto split: if_splits sum.splits simp: Let_def)
        ultimately show ?thesis using False qe Inr len
          by (simp add: find_similar_scored_def candidate_scores_def Let_def)
      qed
    qed
  qed
qed

text \<open>
  The sort puts higher scores first and keeps candidates of equal score in the order
  of their original indices; the slice is a prefix of the sorted list.
\<close>

lemma insort_key_ranks:
  fixes y :: "nat \<times> real"
  assumes "sorted_wrt (\<lambda>a b. ranks_before b a) zs" "\<forall>z\<in>set zs. fst z < fst y"
  shows "sorted_wrt (\<lambda>a b. ranks_before b a) (insort_key snd y zs)"
  using assms
proof (induction zs)
  case Nil
  show ?case by simp
next
  case (Cons z zs)
  show ?case
  proof (cases "snd y \<le> snd z")
    case True
    have "ranks_before b y" if "b \<in> set (z # zs)" for b
    proof -
      have "snd z \<le> snd b" using that Cons.prems(1) by (auto simp: ranks_before_def)
      moreover have "fst b < fst y" using that Cons.prems(2) by auto
      ultimately show ?thesis using True by (auto simp: ranks_before_def)
    qed
    then show ?thesis using True Cons.prems(1) by simp
  next
    case False
    have ih: "sorted_wrt (\<lambda>a b. ranks_before b a) (insort_key snd y zs)"
      using Cons by simp
    have "ranks_before b z" if "b \<in> set (insort_key snd y zs)" for b
    proof -
      have "b = y \<or> b \<in> set zs" using that by (simp add: set_insort_key)
      then show ?thesis using False Cons.prems(1) by (auto simp: ranks_before_def)
    qed
    then show ?thesis using False ih by simp
  qed
qed

lemma sort_key_ranks:
  fixes ys :: "(nat \<times> real) list"
  assumes "sorted_wrt (\<lambda>a b. fst b < fst a) ys"
  shows "sorted_wrt (\<lambda>a b. ranks_before b a) (sort_key snd ys)"
  using assms
proof (induction ys)
  case Nil
  show ?case by simp
next
  case (Cons y ys)
  have "sorted_wrt (\<lambda>a b. ranks_before b a) (sort_key snd ys)"
    using Cons by simp
  moreover have "\<forall>z\<in>set (sort_key snd ys). fst z < fst y"
    using Cons.prems by simp
  ultimately show ?case by (simp add: insort_key_ranks)
qed

lemma sort_desc_ranks:
  "sorted_wrt (\<lambda>a b. fst a < fst b) xs \<Longrightarrow> sorted_wrt ranks_before (sort_desc xs)"
  unfolding sort_desc_def
  by (simp add: sorted_wrt_rev sort_key_ranks)

lemma set_sort_desc: "set (sort_desc xs) = set xs"
  by (simp add: sort_desc_def)

lemma length_sort_desc: "length (sort_desc xs) = length xs"
  by (simp add: sort_desc_def)

lemma py_slice_to_take: "\<exists>n. py_slice_to xs k = take n xs"
  by (auto simp: py_slice_to_def)

lemma set_py_slice_to: "set (py_slice_to xs k) \<subseteq> set xs"
  using py_slice_to_take[of xs k] by (auto dest: in_set_takeD)

lemma sorted_wrt_py_slice_to: "sorted_wrt R xs \<Longrightarrow> sorted_wrt R (py_slice_to xs k)"
  using py_slice_to_take[of xs k] by (auto simp: sorted_wrt_take)

lemma length_py_slice_to: "0 \<le> k \<Longrightarrow> int (length (py_slice_to xs k)) \<le> k"
  by (simp add: py_slice_to_def)

lemma valid_data_fst_sorted: "sorted_wrt (\<lambda>a b. fst a < fst b) (valid_data entries)"
proof -
  have "sorted_wrt (<) (map fst (enumerate 0 entries))" by simp
  then have "sorted_wrt (\<lambda>a b. fst a < fst b) (enumerate 0 entries)"
    unfolding sorted_wrt_map .
  then show ?thesis unfolding valid_data_def by (rule sorted_wrt_filter)
qed

lemma valid_data_in:
  "(i, e) \<in> set (valid_data entries) \<Longrightarrow>
   i < length entries \<and> e = entries ! i \<and> e \<noteq> [] \<and> strip e \<noteq> []"
  by (auto simp: valid_data_def in_set_enumerate_eq)

lemma candidate_scores_props:
  assumes "candidate_scores encode alnum query entries = Inr cands"
  shows "sorted_wrt (\<lambda>a b. fst a < fst b) cands"
    and "\<forall>p\<in>set cands. fst p < length entries \<and> strip (entries ! fst p) \<noteq> []"
proof -
  have "cands = [] \<or> (\<exists>sims. cands = zip (map fst (valid_data entries)) sims)"
    using assms by (auto simp: candidate_scores_def split: if_splits sum.splits)
  then show "sorted_wrt (\<lambda>a b. fst a < fst b) cands"
  proof
    assume "cands = []" then show ?thesis by simp
  next
    assume "\<exists>sims. cands = zip (map fst (valid_data entries)) sims"
    then obtain sims where c: "cands = zip (map fst (valid_data entries)) sims" by blast
    have "sorted_wrt (<) (map fst (valid_data entries))"
      using valid_data_fst_sorted[of entries] unfolding sorted_wrt_map .
    then have "sorted_wrt (<) (take n (map fst (valid_data entries)))" for n
      by (rule sorted_wrt_take)
    then have "sorted_wrt (<) (map fst cands)" by (simp only: c map_fst_zip_take)
    then show ?thesis unfolding sorted_wrt_map .
  qed
  show "\<forall>p\<in>set cands. fst p < length entries \<and> strip (entries ! fst p) \<noteq> []"
  proof
    fix p assume p: "p \<in> set cands"
    then obtain sims where c: "cands = zip (map fst (valid_data entries)) sims"
      using \<open>cands = [] \<or> _\<close> by auto
    have "(fst p, snd p) \<in> set (zip (map fst (valid_data entries)) sims)"
      using p unfolding c by simp
    then have "fst p \<in> set (map fst (valid_data entries))"
      by (rule set_zip_leftD)
    then obtain e where "(fst p, e) \<in> set (valid_data entries)" by auto
    then show "fst p < length entries \<and> strip (entries ! fst p) \<noteq> []"
      using valid_data_in by blast
  qed
qed

lemma find_similar_entries_Inr:
  assumes "find_similar_entries encode alnum query entries top_k threshold = Inr r"
  obtains ranked cands where
    "find_similar_scored encode alnum query entries top_k threshold = Inr ranked"
    "r = map (\<lambda>(idx, score). entries ! idx) ranked"
    "candidate_scores encode alnum query entries = Inr cands"
    "ranked = py_slice_to
       (sort_desc (filter (\<lambda>(idx, s). s \<ge> effective_threshold threshold) cands))
       (effective_top_k top_k)"
proof -
  obtain ranked where ranked:
    "find_similar_scored encode alnum query entries top_k threshold = Inr ranked"
    "r = map (\<lambda>(idx, score). entries ! idx) ranked"
    using assms by (auto simp: find_similar_entries_def split: sum.splits)
  obtain cands where "candidate_scores encode alnum query entries = Inr cands"
    "ranked = py_slice_to
       (sort_desc (filter (\<lambda>(idx, s). s \<ge> effective_threshold threshold) cands))
       (effective_top_k top_k)"
    using ranked(1) unfolding find_similar_scored_candidates
    by (auto split: sum.splits)
  then show ?thesis using ranked that by blast
qed

lemma ranked_subset:
  "set (py_slice_to (sort_desc (filter P cands)) k) \<subseteq> set cands"
  using set_py_slice_to[of "sort_desc (filter P cands)" k] by (auto simp: set_sort_desc)

lemma ranked_sorted:
  assumes "sorted_wrt (\<lambda>a b. fst a < fst b) cands"
  shows "sorted_wrt ranks_before (py_slice_to (sort_desc (filter P cands)) k)"
proof -
  have "sorted_wrt (\<lambda>a b. fst a < fst b) (filter P cands)"
    using assms by (rule sorted_wrt_filter)
  then have "sorted_wrt ranks_before (sort_desc (filter P cands))"
    by (rule sort_desc_ranks)
  then show ?thesis by (rule sorted_wrt_py_slice_to)
qed

text \<open>What holds of every list the function returns.\<close>

lemma returned_ranking_sorted:
  assumes "find_similar_entries encode alnum query entries top_k threshold = Inr r"
  shows "\<exists>ranked cands.
           find_similar_scored encode alnum query entries top_k threshold = Inr ranked \<and>
           candidate_scores encode alnum query entries = Inr cands \<and>
           r = map (\<lambda>(idx, score). entries ! idx) ranked \<and>
           set ranked \<subseteq> set cands \<and>
           sorted_wrt ranks_before ranked"
proof -
  from assms obtain ranked cands where *:
    "find_similar_scored encode alnum query entries top_k threshold = Inr ranked"
    "r = map (\<lambda>(idx, score). entries ! idx) ranked"
    "candidate_scores encode alnum query entries = Inr cands"
    "ranked = py_slice_to
       (sort_desc (filter (\<lambda>(idx, s). s \<ge> effective_threshold threshold) cands))
       (effective_top_k top_k)"
    by (rule find_similar_entries_Inr)
  have "set ranked \<subseteq> set cands" unfolding *(4) by (rule ranked_subset)
  moreover have "sorted_wrt ranks_before ranked"
    unfolding *(4) using candidate_scores_props(1)[OF *(3)] by (rule ranked_sorted)
  ultimately show ?thesis using * by blast
qed

lemma filter_step_exact:
  "find_similar_scored encode alnum query entries top_k threshold =
     (case candidate_scores encode alnum query entries of
        Inl e \<Rightarrow> Inl e
      | Inr cands \<Rightarrow>
          Inr (py_slice_to
                 (sort_desc (filter (\<lambda>(idx, s). s \<ge> effective_threshold threshold) cands))
                 (effective_top_k top_k))) \<and>
   (\<forall>r. find_similar_entries encode alnum query entries top_k threshold = Inr r \<longrightarrow>
      (\<exists>ranked. find_similar_scored encode alnum query entries top_k threshold = Inr ranked \<and>
         r = map (\<lambda>(idx, score). entries ! idx) ranked \<and>
         (\<forall>p\<in>set ranked. snd p \<ge> effective_threshold threshold)))"
proof (intro conjI allI impI)
  show "find_similar_scored encode alnum query entries top_k threshold =
     (case candidate_scores encode alnum query entries of
        Inl e \<Rightarrow> Inl e
      | Inr cands \<Rightarrow>
          Inr (py_slice_to
                 (sort_desc (filter (\<lambda>(idx, s). s \<ge> effective_threshold threshold) cands))
                 (effective_top_k top_k)))"
    by (rule find_similar_scored_candidates)
next
  fix r
  assume "find_similar_entries encode alnum query entries top_k threshold = Inr r"
  then obtain ranked cands where *:
    "find_similar_scored encode alnum query entries top_k threshold = Inr ranked"
    "r = map (\<lambda>(idx, score). entries ! idx) ranked"
    "candidate_scores encode alnum query entries = Inr cands"
    "ranked = py_slice_to
       (sort_desc (filter (\<lambda>(idx, s). s \<ge> effective_threshold threshold) cands))
       (effective_top_k top_k)"
    by (rule find_similar_entries_Inr)
  have "set ranked \<subseteq> set (filter (\<lambda>(idx, s). s \<ge> effective_threshold threshold) cands)"
    unfolding *(4)
    using set_py_slice_to[of "sort_desc (filter (\<lambda>(idx, s). s \<ge> effective_threshold threshold) cands)"
        "effective_top_k top_k"]
    by (simp add: set_sort_desc)
  then have "\<forall>p\<in>set ranked. snd p \<ge> effective_threshold threshold" by auto
  then show "\<exists>ranked. find_similar_scored encode alnum query entries top_k threshold = Inr ranked \<and>
         r = map (\<lambda>(idx, score). entries ! idx) ranked \<and>
         (\<forall>p\<in>set ranked. snd p \<ge> effective_threshold threshold)"
    using * by blast
qed

lemma returned_length_bounded:
  assumes "find_similar_entries encode alnum query entries top_k threshold = Inr r"
    and "top_k = None \<or> (\<exists>k. top_k = Some k \<and> 1 \<le> k)"
  shows "int (length r) \<le> effective_top_k top_k \<and>
         effective_top_k top_k = (case top_k of None \<Rightarrow> 5 | Some k \<Rightarrow> k)"
proof -
  have eff: "effective_top_k top_k = (case top_k of None \<Rightarrow> 5 | Some k \<Rightarrow> k)"
    using assms(2) by (auto simp: effective_top_k_def TOP_K_def)
  then have pos: "0 \<le> effective_top_k top_k" using assms(2) by auto
  from assms(1) obtain ranked cands where *:
    "r = map (\<lambda>(idx, score). entries ! idx) ranked"
    "ranked = py_slice_to
       (sort_desc (filter (\<lambda>(idx, s). s \<ge> effective_threshold threshold) cands))
       (effective_top_k top_k)"
    by (rule find_similar_entries_Inr)
  have "int (length ranked) \<le> effective_top_k top_k"
    unfolding *(2) using pos by (rule length_py_slice_to)
  then show ?thesis using eff *(1) by simp
qed

lemma returned_entries_original:
  assumes "find_similar_entries encode alnum query entries top_k threshold = Inr r"
  shows "set r \<subseteq> set entries \<and>
         (\<exists>idxs. r = map (\<lambda>i. entries ! i) idxs \<and> list_all (\<lambda>i. i < length entries) idxs)"
proof -
  from assms obtain ranked cands where *:
    "r = map (\<lambda>(idx, score). entries ! idx) ranked"
    "candidate_scores encode alnum query entries = Inr cands"
    "ranked = py_slice_to
       (sort_desc (filter (\<lambda>(idx, s). s \<ge> effective_threshold threshold) cands))
       (effective_top_k top_k)"
    by (rule find_similar_entries_Inr)
  have sub: "set ranked \<subseteq> set cands" unfolding *(3) by (rule ranked_subset)
  have idx: "\<forall>p\<in>set ranked. fst p < length entries"
    using sub candidate_scores_props(2)[OF *(2)] by blast
  have r: "r = map (\<lambda>i. entries ! i) (map fst ranked)"
    unfolding *(1) by (simp add: case_prod_beta)
  have "list_all (\<lambda>i. i < length entries) (map fst ranked)"
    using idx by (simp add: list_all_iff)
  moreover have "set r \<subseteq> set entries"
    unfolding r using idx by auto
  ultimately show ?thesis using r by blast
qed

section \<open>The provider's contract: both forms return\<close>

text \<open>
  With a provider that keeps its contract, the batch form returns \<open>batch_row\<close> at
  every position, and the single-query form returns the \<open>batch_row\<close> of the
  one-query batch with the threshold left unconverted.
\<close>

lemma dot_commute: "dot u v = dot v u"
  unfolding dot_def by (induction u v rule: list_induct2') simp_all

lemma strip_Nil: "strip [] = []"
  by (simp add: strip_def)

lemma scored_comprehension_filter:
  assumes "length vd \<le> length sims"
  shows "scored_comprehension to_dtype sims thr vd =
           Inr (filter (\<lambda>(idx, s). s \<ge> to_dtype thr) (zip (map fst vd) sims))"
proof -
  have z: "zip (map fst vd) sims = map (\<lambda>i. (fst (vd ! i), sims ! i)) [0 ..< length vd]"
    using assms by (intro nth_equalityI) simp_all
  show ?thesis
    using assms by (simp add: scored_comprehension_def z filter_map comp_def)
qed

lemma batch_loop_rows:
  assumes "\<forall>j. i \<le> j \<and> j < i + length qs \<longrightarrow> j < length M \<and> length vd \<le> length (M ! j)"
  shows "batch_loop to_dtype M vd entries k thr i qs =
     Inr (map (\<lambda>(j, q).
            if strip q = [] then []
            else map (\<lambda>(idx, score). entries ! idx)
                   (py_slice_to
                      (sort_desc (filter (\<lambda>(idx, s). s \<ge> to_dtype thr)
                         (zip (map fst vd) (M ! j)))) k))
          (enumerate i qs))"
  using assms
proof (induction qs arbitrary: i)
  case Nil
  show ?case by simp
next
  case (Cons q qs)
  have here: "i < length M" "length vd \<le> length (M ! i)"
    using Cons.prems by auto
  have "\<forall>j. Suc i \<le> j \<and> j < Suc i + length qs \<longrightarrow> j < length M \<and> length vd \<le> length (M ! j)"
    using Cons.prems by auto
  note ih = Cons.IH[OF this]
  have blank: "(q = [] \<or> strip q = []) = (strip q = [])"
    using strip_Nil by auto
  show ?case
    using here
    by (simp add: ih blank scored_comprehension_filter[OF here(2)])
qed

lemma well_shaped_get_embeddings:
  assumes "well_shaped encode d"
  shows "length (get_embeddings encode alnum texts) = length texts"
    and "list_all (\<lambda>row. length row = d) (get_embeddings encode alnum texts)"
  using assms by (simp_all add: well_shaped_def get_embeddings_def)

lemma np_dot_mmT_well_shaped:
  assumes "list_all (\<lambda>row. length row = d) a" "list_all (\<lambda>row. length row = d) b"
  shows "np_dot_mmT a b = Inr (map (\<lambda>ra. map (\<lambda>rb. dot ra rb) b) a)"
  using assms by (auto simp: np_dot_mmT_def list_all_iff)

lemma np_dot_mv_well_shaped:
  assumes "list_all (\<lambda>row. length row = d) m" "length v = d"
  shows "np_dot_mv m v = Inr (map (\<lambda>row. dot row v) m)"
  using assms by (auto simp: np_dot_mv_def list_all_iff)

lemma batch_well_shaped:
  assumes ws: "well_shaped encode d"
  shows "find_similar_entries_batch encode alnum to_dtype queries entries top_k threshold =
           Inr (map (batch_row encode alnum to_dtype queries entries top_k threshold) [0 ..< length queries])"
proof (cases "queries = [] \<or> entries = [] \<or> valid_data entries = []")
  case True
  have const: "map (\<lambda>_. []) queries = map (\<lambda>j. []) [0 ..< length queries]"
    by (simp add: map_replicate_const)
  show ?thesis
  proof (cases "queries = []")
    case True
    then show ?thesis by (simp add: find_similar_entries_batch_def)
  next
    case False
    then have e: "entries = [] \<or> valid_data entries = []" using True by simp
    then have "batch_row encode alnum to_dtype queries entries top_k threshold j = []" for j
      by (auto simp: batch_row_def)
    then have "map (batch_row encode alnum to_dtype queries entries top_k threshold) [0 ..< length queries] =
        map (\<lambda>j. []) [0 ..< length queries]"
      by (intro map_cong[OF refl])
    then have rows: "map (batch_row encode alnum to_dtype queries entries top_k threshold) [0 ..< length queries] =
        map (\<lambda>_. []) queries"
      by (rule trans[OF _ const[symmetric]])
    have "find_similar_entries_batch encode alnum to_dtype queries entries top_k threshold =
        Inr (map (\<lambda>_. []) queries)"
      using False e by (auto simp: find_similar_entries_batch_def Let_def)
    then show ?thesis by (simp only: rows)
  qed
next
  case False
  define vd where "vd = valid_data entries"
  define Q where "Q = get_embeddings encode alnum queries"
  define E where "E = get_embeddings encode alnum (map snd vd)"
  define M where "M = map (\<lambda>ra. map (\<lambda>rb. dot ra rb) E) Q"
  have lenQ: "length Q = length queries" and rowsQ: "list_all (\<lambda>row. length row = d) Q"
    unfolding Q_def using well_shaped_get_embeddings[OF ws] by simp_all
  have lenE: "length E = length vd" and rowsE: "list_all (\<lambda>row. length row = d) E"
    unfolding E_def using well_shaped_get_embeddings[OF ws, of alnum "map snd vd"] by simp_all
  have mm: "np_dot_mmT Q E = Inr M"
    unfolding M_def using rowsQ rowsE by (rule np_dot_mmT_well_shaped)
  have rows: "\<forall>j. 0 \<le> j \<and> j < 0 + length queries \<longrightarrow> j < length M \<and> length vd \<le> length (M ! j)"
    by (simp add: M_def lenQ lenE)
  have loop: "batch_loop to_dtype M vd entries (effective_top_k top_k) (effective_threshold threshold) 0 queries =
     Inr (map (\<lambda>(j, q).
            if strip q = [] then []
            else map (\<lambda>(idx, score). entries ! idx)
                   (py_slice_to
                      (sort_desc (filter (\<lambda>(idx, s). s \<ge> to_dtype (effective_threshold threshold))
                         (zip (map fst vd) (M ! j)))) (effective_top_k top_k)))
          (enumerate 0 queries))"
    using rows by (rule batch_loop_rows)
  have body: "find_similar_entries_batch encode alnum to_dtype queries entries top_k threshold =
      batch_loop to_dtype M vd entries (effective_top_k top_k) (effective_threshold threshold) 0 queries"
    using False mm
    by (simp add: find_similar_entries_batch_def Let_def vd_def[symmetric] Q_def[symmetric]
        E_def[symmetric])
  have "map (\<lambda>(j, q).
            if strip q = [] then []
            else map (\<lambda>(idx, score). entries ! idx)
                   (py_slice_to
                      (sort_desc (filter (\<lambda>(idx, s). s \<ge> to_dtype (effective_threshold threshold))
                         (zip (map fst vd) (M ! j)))) (effective_top_k top_k)))
          (enumerate 0 queries) =
        map (batch_row encode alnum to_dtype queries entries top_k threshold) [0 ..< length queries]"
  proof (rule nth_equalityI)
    show "length (map (\<lambda>(j, q).
            if strip q = [] then []
            else map (\<lambda>(idx, score). entries ! idx)
                   (py_slice_to
                      (sort_desc (filter (\<lambda>(idx, s). s \<ge> to_dtype (effective_threshold threshold))
                         (zip (map fst vd) (M ! j)))) (effective_top_k top_k)))
          (enumerate 0 queries)) =
        length (map (batch_row encode alnum to_dtype queries entries top_k threshold) [0 ..< length queries])"
      by simp
  next
    fix j
    assume "j < length (map (\<lambda>(j, q).
            if strip q = [] then []
            else map (\<lambda>(idx, score). entries ! idx)
                   (py_slice_to
                      (sort_desc (filter (\<lambda>(idx, s). s \<ge> to_dtype (effective_threshold threshold))
                         (zip (map fst vd) (M ! j)))) (effective_top_k top_k)))
          (enumerate 0 queries))"
    then have j: "j < length queries" by simp
    have Mj: "M ! j = map (\<lambda>row. dot (Q ! j) row) E"
      using j by (simp add: M_def lenQ)
    show "map (\<lambda>(j, q).
            if strip q = [] then []
            else map (\<lambda>(idx, score). entries ! idx)
                   (py_slice_to
                      (sort_desc (filter (\<lambda>(idx, s). s \<ge> to_dtype (effective_threshold threshold))
                         (zip (map fst vd) (M ! j)))) (effective_top_k top_k)))
          (enumerate 0 queries) ! j =
        map (batch_row encode alnum to_dtype queries entries top_k threshold) [0 ..< length queries] ! j"
      using j False
      by (simp add: nth_enumerate_eq batch_row_def Mj vd_def[symmetric] Q_def[symmetric]
          E_def[symmetric])
  qed
  then show ?thesis using body loop by simp
qed

lemma single_well_shaped:
  assumes ws: "well_shaped encode d"
  shows "find_similar_entries encode alnum query entries top_k threshold =
           Inr (batch_row encode alnum (\<lambda>t. t) [query] entries top_k threshold 0)"
proof (cases "query = [] \<or> entries = [] \<or> valid_data entries = [] \<or> strip query = []")
  case True
  then have "entries = [] \<or> valid_data entries = [] \<or> strip query = []"
    using strip_Nil by auto
  then show ?thesis using True
    by (auto simp: find_similar_entries_def find_similar_scored_def batch_row_def Let_def)
next
  case False
  define vd where "vd = valid_data entries"
  define Q where "Q = get_embeddings encode alnum [query]"
  define E where "E = get_embeddings encode alnum (map snd vd)"
  have lenQ: "length Q = 1" and rowsQ: "list_all (\<lambda>row. length row = d) Q"
    unfolding Q_def using well_shaped_get_embeddings[OF ws, of alnum "[query]"] by simp_all
  then obtain qe where Q: "Q = [qe]" and qe: "length qe = d"
    by (cases Q) auto
  have lenE: "length E = length vd" and rowsE: "list_all (\<lambda>row. length row = d) E"
    unfolding E_def using well_shaped_get_embeddings[OF ws, of alnum "map snd vd"] by simp_all
  have mv: "np_dot_mv E qe = Inr (map (\<lambda>row. dot row qe) E)"
    using rowsE qe by (rule np_dot_mv_well_shaped)
  have cands: "candidate_scores encode alnum query entries =
      Inr (zip (map fst vd) (map (\<lambda>row. dot qe row) E))"
    using False mv lenE
    by (simp add: candidate_scores_def vd_def[symmetric] Q_def[symmetric] E_def[symmetric] Q
        index0_def dot_commute)
  show ?thesis
    using False
    by (simp add: find_similar_entries_def find_similar_scored_candidates cands batch_row_def
        vd_def[symmetric] Q_def[symmetric] E_def[symmetric] Q)
qed

lemma find_similar_entries_returns:
  "well_shaped encode d \<Longrightarrow> \<exists>r. find_similar_entries encode alnum query entries top_k threshold = Inr r"
  using single_well_shaped by blast

lemma per_item_well_shaped: "per_item encode emb d \<Longrightarrow> well_shaped encode d"
  by (simp add: per_item_def well_shaped_def list_all_iff)

lemma per_item_batch_row:
  assumes "per_item encode emb d" "j < length queries"
  shows "batch_row encode alnum to_dtype queries entries top_k threshold j =
         batch_row encode alnum to_dtype [queries ! j] entries top_k threshold 0"
proof -
  have "get_embeddings encode alnum queries ! j = get_embeddings encode alnum [queries ! j] ! 0"
    using assms by (auto simp: per_item_def get_embeddings_def)
  then show ?thesis by (simp add: batch_row_def)
qed

lemma demo_per_item: "per_item demo_encode demo_embed 2"
  by (auto simp: per_item_def demo_encode_def demo_embed_def split: list.splits)

lemma demo_well_shaped: "well_shaped demo_encode 2"
  using demo_per_item by (rule per_item_well_shaped)

lemma float32_per_item: "per_item float32_encode float32_embed 2"
  by (auto simp: per_item_def float32_encode_def float32_embed_def split: list.splits)

lemma float32_well_shaped: "well_shaped float32_encode 2"
  using float32_per_item by (rule per_item_well_shaped)

text \<open>The single-precision numbers nearest to 0.7 and to 0.1.\<close>

lemma float32_exponent_7_10: "float32_exponent (7 / 10) = - 1"
  by (simp add: float32_exponent_def upt_rec)

lemma to_float32_7_10: "to_float32 (7 / 10) = 11744051 / 16777216"
  by (simp add: to_float32_def float32_exponent_7_10 round_half_even_def Let_def)

lemma float32_exponent_1_10: "float32_exponent (1 / 10) = - 4"
  by (simp add: float32_exponent_def upt_rec)

lemma to_float32_1_10: "to_float32 (1 / 10) = 13421773 / 134217728"
  by (simp add: to_float32_def float32_exponent_1_10 round_half_even_def Let_def)

section \<open>The claims about the service\<close>

text \<open>Unfolding everything a run on a concrete input goes through.\<close>

lemmas demo_eval =
  find_similar_entries_def find_similar_scored_def candidate_scores_def valid_data_def
  enumerate_eq_zip strip_def is_space_def is_special_def is_word_def ascii_alnum_def SP_def
  pystr_def get_embeddings_def clean_for_embedding_def demo_encode_def demo_embed_def
  index0_def np_dot_mv_def dot_def sort_desc_def py_slice_to_def effective_top_k_def
  effective_threshold_def TOP_K_def SIMILARITY_THRESHOLD_def Let_def

lemmas demo_batch_eval =
  find_similar_entries_batch_def scored_comprehension_def np_dot_mmT_def

text \<open>
  Claim C3.  The filter step of \<open>find_similar_entries\<close> keeps exactly the
  candidates whose similarity is greater than or equal to the effective threshold (a
  candidate whose score equals the threshold is kept): the function is the slice of the
  sort of that filter of the candidate list.  So every returned entry has a score that
  is at least the threshold.  (With a provider that keeps its contract the function
  does return.)
\<close>

theorem threshold_filter_inclusive:
  "(well_shaped encode d \<longrightarrow>
      (\<exists>r. find_similar_entries encode alnum query entries top_k threshold = Inr r)) \<and>
   find_similar_scored encode alnum query entries top_k threshold =
     (case candidate_scores encode alnum query entries of
        Inl e \<Rightarrow> Inl e
      | Inr cands \<Rightarrow>
          Inr (py_slice_to
                 (sort_desc (filter (\<lambda>(idx, s). s \<ge> effective_threshold threshold) cands))
                 (effective_top_k top_k))) \<and>
   (\<forall>r. find_similar_entries encode alnum query entries top_k threshold = Inr r \<longrightarrow>
      (\<exists>ranked. find_similar_scored encode alnum query entries top_k threshold = Inr ranked \<and>
         r = map (\<lambda>(idx, score). entries ! idx) ranked \<and>
         (\<forall>p\<in>set ranked. snd p \<ge> effective_threshold threshold)))"
  using find_similar_entries_returns[of encode d alnum query entries top_k threshold]
    filter_step_exact[of encode alnum query entries top_k threshold]
  by blast

theorem threshold_filter_inclusive_witness:
  "well_shaped demo_encode 2 \<and>
   candidate_scores demo_encode ascii_alnum (pystr ''q'')
     [pystr ''a'', pystr ''b'', pystr '' '', pystr ''d'', pystr ''c''] =
     Inr [(0, 7 / 25), (1, 3 / 5), (3, 3 / 5), (4, 4 / 5)] \<and>
   find_similar_scored demo_encode ascii_alnum (pystr ''q'')
     [pystr ''a'', pystr ''b'', pystr '' '', pystr ''d'', pystr ''c''] None (Some (3 / 5)) =
     Inr [(4, 4 / 5), (1, 3 / 5), (3, 3 / 5)] \<and>
   find_similar_entries demo_encode ascii_alnum (pystr ''q'')
     [pystr ''a'', pystr ''b'', pystr '' '', pystr ''d'', pystr ''c''] None (Some (3 / 5)) =
     Inr [pystr ''c'', pystr ''b'', pystr ''d'']"
proof -
  let ?es = "[pystr ''a'', pystr ''b'', pystr '' '', pystr ''d'', pystr ''c'']"
  have cands: "candidate_scores demo_encode ascii_alnum (pystr ''q'') ?es =
     Inr [(0, 7 / 25), (1, 3 / 5), (3, 3 / 5), (4, 4 / 5)]"
    by (simp add: demo_eval upt_rec)
  have "find_similar_scored demo_encode ascii_alnum (pystr ''q'') ?es None (Some (3 / 5)) =
     (case candidate_scores demo_encode ascii_alnum (pystr ''q'') ?es of
        Inl e \<Rightarrow> Inl e
      | Inr cands \<Rightarrow>
          Inr (py_slice_to
                 (sort_desc (filter (\<lambda>(idx, s). s \<ge> effective_threshold (Some (3 / 5))) cands))
                 (effective_top_k None)))"
    using threshold_filter_inclusive[of demo_encode 2 ascii_alnum "pystr ''q''" ?es None "Some (3 / 5)"] by blast
  then have "find_similar_scored demo_encode ascii_alnum (pystr ''q'') ?es None (Some (3 / 5)) =
     Inr [(4, 4 / 5), (1, 3 / 5), (3, 3 / 5)]"
    by (simp add: cands sort_desc_def py_slice_to_def effective_top_k_def
        effective_threshold_def TOP_K_def)
  then show ?thesis using cands demo_well_shaped
    by (simp add: find_similar_entries_def pystr_def)
qed

text \<open>
  Claim C2.  What \<open>find_similar_entries\<close> returns is sorted by descending
  similarity, and two returned candidates with exactly equal scores stand in their
  original input order: the returned strings are the entries at the indices of a list of
  (index, score) candidates that is sorted by \<open>ranks_before\<close>.  (With a provider
  that keeps its contract the function does return.)
\<close>

theorem ranking_sorted_descending_stable:
  "(well_shaped encode d \<longrightarrow>
      (\<exists>r. find_similar_entries encode alnum query entries top_k threshold = Inr r)) \<and>
   (\<forall>r. find_similar_entries encode alnum query entries top_k threshold = Inr r \<longrightarrow>
      (\<exists>ranked cands.
         find_similar_scored encode alnum query entries top_k threshold = Inr ranked \<and>
         candidate_scores encode alnum query entries = Inr cands \<and>
         r = map (\<lambda>(idx, score). entries ! idx) ranked \<and>
         set ranked \<subseteq> set cands \<and>
         sorted_wrt ranks_before ranked))"
  using find_similar_entries_returns[of encode d alnum query entries top_k threshold]
    returned_ranking_sorted[of encode alnum query entries top_k threshold]
  by blast

theorem ranking_sorted_descending_stable_witness:
  "well_shaped demo_encode 2 \<and>
   find_similar_entries demo_encode ascii_alnum (pystr ''q'')
     [pystr ''a'', pystr ''b'', pystr '' '', pystr ''d'', pystr ''c''] None (Some (1 / 10)) =
     Inr [pystr ''c'', pystr ''b'', pystr ''d'', pystr ''a''] \<and>
   find_similar_scored demo_encode ascii_alnum (pystr ''q'')
     [pystr ''a'', pystr ''b'', pystr '' '', pystr ''d'', pystr ''c''] None (Some (1 / 10)) =
     Inr [(4, 4 / 5), (1, 3 / 5), (3, 3 / 5), (0, 7 / 25)] \<and>
   sorted_wrt ranks_before [(4, 4 / 5), (1, 3 / 5), (3, 3 / 5), (0, 7 / 25)]"
proof -
  let ?es = "[pystr ''a'', pystr ''b'', pystr '' '', pystr ''d'', pystr ''c'']"
  have run: "find_similar_entries demo_encode ascii_alnum (pystr ''q'') ?es None (Some (1 / 10)) =
     Inr [pystr ''c'', pystr ''b'', pystr ''d'', pystr ''a'']"
    by (simp add: demo_eval upt_rec)
  have scored: "find_similar_scored demo_encode ascii_alnum (pystr ''q'') ?es None (Some (1 / 10)) =
     Inr [(4, 4 / 5), (1, 3 / 5), (3, 3 / 5), (0, 7 / 25)]"
    by (simp add: demo_eval upt_rec)
  obtain ranked where
    "find_similar_scored demo_encode ascii_alnum (pystr ''q'') ?es None (Some (1 / 10)) = Inr ranked"
    "sorted_wrt ranks_before ranked"
    using ranking_sorted_descending_stable[of demo_encode 2 ascii_alnum "pystr ''q''" ?es None "Some (1 / 10)"] run
    by blast
  then have "sorted_wrt ranks_before [(4, 4 / 5), (1, 3 / 5), (3, 3 / 5), (0, 7 / 25)]"
    using scored by simp
  then show ?thesis using run scored demo_well_shaped by simp
qed

text \<open>
  Claim C5, as amended.  For every candidate list and threshold, and every \<open>top_k\<close>
  that is absent or at least 1, the output of \<open>find_similar_entries\<close> has at most
  the effective \<open>top_k\<close> entries: \<open>top_k\<close> itself when it is supplied, 5 when it
  is absent.  (With a provider that keeps its contract the function does return.)
\<close>

theorem top_k_bounds_result_length:
  "(well_shaped encode d \<longrightarrow>
      (\<exists>r. find_similar_entries encode alnum query entries top_k threshold = Inr r)) \<and>
   (\<forall>r. find_similar_entries encode alnum query entries top_k threshold = Inr r \<and>
        (top_k = None \<or> (\<exists>k. top_k = Some k \<and> 1 \<le> k)) \<longrightarrow>
      int (length r) \<le> effective_top_k top_k \<and>
      effective_top_k top_k = (case top_k of None \<Rightarrow> 5 | Some k \<Rightarrow> k))"
  using find_similar_entries_returns[of encode d alnum query entries top_k threshold]
    returned_length_bounded[of encode alnum query entries top_k threshold]
  by blast

theorem top_k_bounds_result_length_witness:
  "well_shaped demo_encode 2 \<and>
   find_similar_entries demo_encode ascii_alnum (pystr ''q'')
     [pystr ''a'', pystr ''b'', pystr '' '', pystr ''d'', pystr ''c''] (Some 2) (Some (1 / 10)) =
     Inr [pystr ''c'', pystr ''b''] \<and>
   int (length [pystr ''c'', pystr ''b'']) \<le> effective_top_k (Some 2) \<and>
   effective_top_k (Some 2) = 2"
proof -
  have run: "find_similar_entries demo_encode ascii_alnum (pystr ''q'')
     [pystr ''a'', pystr ''b'', pystr '' '', pystr ''d'', pystr ''c''] (Some 2) (Some (1 / 10)) =
     Inr [pystr ''c'', pystr ''b'']"
    by (simp add: demo_eval upt_rec)
  have k: "Some (2::int) = None \<or> (\<exists>k. Some (2::int) = Some k \<and> 1 \<le> k)" by simp
  have "int (length [pystr ''c'', pystr ''b'']) \<le> effective_top_k (Some 2) \<and>
      effective_top_k (Some 2) = (case Some 2 of None \<Rightarrow> 5 | Some k \<Rightarrow> k)"
    using top_k_bounds_result_length[of demo_encode 2 ascii_alnum "pystr ''q''"
        "[pystr ''a'', pystr ''b'', pystr '' '', pystr ''d'', pystr ''c'']" "Some 2" "Some (1 / 10)"]
      run k
    by blast
  then show ?thesis using run demo_well_shaped by simp
qed

text \<open>
  The bound does not hold for every \<open>top_k\<close>: with \<open>top_k = -1\<close> the slice
  \<open>scored_entries[:-1]\<close> drops the last of four candidates and three entries are
  returned, and with \<open>top_k = 0\<close> the default 5 takes its place and four are
  returned.
\<close>

theorem nonpositive_top_k_exceeds_bound:
  "find_similar_entries demo_encode ascii_alnum (pystr ''q'')
     [pystr ''a'', pystr ''b'', pystr '' '', pystr ''d'', pystr ''c''] (Some (- 1)) (Some (1 / 10)) =
     Inr [pystr ''c'', pystr ''b'', pystr ''d''] \<and>
   \<not> int (length [pystr ''c'', pystr ''b'', pystr ''d'']) \<le> - 1 \<and>
   \<not> int (length [pystr ''c'', pystr ''b'', pystr ''d'']) \<le> effective_top_k (Some (- 1)) \<and>
   find_similar_entries demo_encode ascii_alnum (pystr ''q'')
     [pystr ''a'', pystr ''b'', pystr '' '', pystr ''d'', pystr ''c''] (Some 0) (Some (1 / 10)) =
     Inr [pystr ''c'', pystr ''b'', pystr ''d'', pystr ''a''] \<and>
   \<not> int (length [pystr ''c'', pystr ''b'', pystr ''d'', pystr ''a'']) \<le> 0"
  by (simp add: demo_eval upt_rec)

text \<open>
  Claim C7.  Every string that \<open>find_similar_entries\<close> returns is an element of the
  caller's \<open>entries\<close>, read from that list at an index in range: the original string,
  not the cleaned text that was embedded.  (With a provider that keeps its contract the
  function does return.)
\<close>

theorem result_entries_are_original:
  "(well_shaped encode d \<longrightarrow>
      (\<exists>r. find_similar_entries encode alnum query entries top_k threshold = Inr r)) \<and>
   (\<forall>r. find_similar_entries encode alnum query entries top_k threshold = Inr r \<longrightarrow>
      set r \<subseteq> set entries \<and>
      (\<exists>idxs. r = map (\<lambda>i. entries ! i) idxs \<and> list_all (\<lambda>i. i < length entries) idxs))"
  using find_similar_entries_returns[of encode d alnum query entries top_k threshold]
    returned_entries_original[of encode alnum query entries top_k threshold]
  by blast

theorem result_entries_are_original_witness:
  "well_shaped demo_encode 2 \<and>
   clean_for_embedding ascii_alnum (pystr ''  c  !!! x'') = pystr ''c x'' \<and>
   find_similar_entries demo_encode ascii_alnum (pystr ''q'')
     [pystr ''b'', pystr ''  c  !!! x''] None None = Inr [pystr ''  c  !!! x'', pystr ''b''] \<and>
   set [pystr ''  c  !!! x'', pystr ''b''] \<subseteq> set [pystr ''b'', pystr ''  c  !!! x'']"
proof -
  have clean: "clean_for_embedding ascii_alnum (pystr ''  c  !!! x'') = pystr ''c x''"
    by (simp add: demo_eval)
  have run: "find_similar_entries demo_encode ascii_alnum (pystr ''q'')
     [pystr ''b'', pystr ''  c  !!! x''] None None = Inr [pystr ''  c  !!! x'', pystr ''b'']"
    by (simp add: demo_eval upt_rec)
  have "set [pystr ''  c  !!! x'', pystr ''b''] \<subseteq> set [pystr ''b'', pystr ''  c  !!! x'']"
    using result_entries_are_original[of demo_encode 2 ascii_alnum "pystr ''q''" "[pystr ''b'', pystr ''  c  !!! x'']"
        None None] run
    by blast
  then show ?thesis using clean run demo_well_shaped by blast
qed

text \<open>An entry list of blank strings has no valid entry.\<close>

lemma valid_data_all_blank:
  "list_all (\<lambda>e. strip e = []) entries \<Longrightarrow> valid_data entries = []"
  by (auto simp: valid_data_def filter_empty_conv list_all_iff in_set_enumerate_eq)

text \<open>
  Claim C6.  When the query is empty, or the entry list is empty, or every entry is
  blank after trimming, \<open>find_similar_entries\<close> returns the empty list and raises
  nothing.  The request handler does the same for an empty or all-blank entry list
  (it has refused a blank query before that).
\<close>

theorem empty_inputs_give_empty_result:
  "(query = [] \<or> entries = [] \<or> list_all (\<lambda>e. strip e = []) entries \<longrightarrow>
      find_similar_entries encode alnum query entries top_k threshold = Inr []) \<and>
   (strip (req_query request) \<noteq> [] \<and>
    (req_entries request = [] \<or> list_all (\<lambda>e. strip e = []) (req_entries request)) \<longrightarrow>
      similarity_endpoint encode alnum request = Inr [])"
proof (intro conjI impI)
  assume "query = [] \<or> entries = [] \<or> list_all (\<lambda>e. strip e = []) entries"
  then have "query = [] \<or> entries = [] \<or> valid_data entries = []"
    using valid_data_all_blank by blast
  then show "find_similar_entries encode alnum query entries top_k threshold = Inr []"
    by (auto simp: find_similar_entries_def find_similar_scored_def Let_def)
next
  assume a: "strip (req_query request) \<noteq> [] \<and>
    (req_entries request = [] \<or> list_all (\<lambda>e. strip e = []) (req_entries request))"
  have "filter (\<lambda>e. e \<noteq> [] \<and> strip e \<noteq> []) (req_entries request) = []"
    using a by (auto simp: filter_empty_conv list_all_iff)
  then show "similarity_endpoint encode alnum request = Inr []"
    using a by (simp add: similarity_endpoint_def)
qed

theorem empty_inputs_give_empty_result_witness:
  "find_similar_entries demo_encode ascii_alnum [] [pystr ''a'', pystr ''b''] None None = Inr [] \<and>
   find_similar_entries demo_encode ascii_alnum (pystr ''q'') [] None None = Inr [] \<and>
   find_similar_entries demo_encode ascii_alnum (pystr ''q'') [[], pystr ''   ''] None None = Inr [] \<and>
   similarity_endpoint demo_encode ascii_alnum
     \<lparr>req_user_id = pystr ''u'', req_query = pystr ''q'', req_entries = [[], pystr ''   ''],
      req_top_k = None, req_threshold = None\<rparr> = Inr []"
proof -
  have blank: "list_all (\<lambda>e. strip e = []) [[], pystr ''   '']"
    by (simp add: strip_def pystr_def is_space_def)
  have q: "strip (pystr ''q'') \<noteq> []"
    by (simp add: strip_def pystr_def is_space_def)
  show ?thesis
    using empty_inputs_give_empty_result[of "[]" "[pystr ''a'', pystr ''b'']" demo_encode ascii_alnum None None
        "\<lparr>req_user_id = pystr ''u'', req_query = pystr ''q'', req_entries = [[], pystr ''   ''],
          req_top_k = None, req_threshold = None\<rparr>"]
      empty_inputs_give_empty_result[of "pystr ''q''" "[]" demo_encode ascii_alnum None None
        "\<lparr>req_user_id = pystr ''u'', req_query = pystr ''q'', req_entries = [[], pystr ''   ''],
          req_top_k = None, req_threshold = None\<rparr>"]
      empty_inputs_give_empty_result[of "pystr ''q''" "[[], pystr ''   '']" demo_encode ascii_alnum None None
        "\<lparr>req_user_id = pystr ''u'', req_query = pystr ''q'', req_entries = [[], pystr ''   ''],
          req_top_k = None, req_threshold = None\<rparr>"]
      blank q
    by simp
qed

text \<open>
  Claim C1, at the input where the code departs from it.  A supplied threshold of 0.0
  is replaced by the default 0.3: the only candidate scores 0.28, which is at least 0.0,
  and it is not returned; with the threshold 0.01 it is.
\<close>

theorem explicit_zero_threshold_replaced:
  "effective_threshold (Some 0) = 3 / 10 \<and>
   candidate_scores demo_encode ascii_alnum (pystr ''q'') [pystr ''a''] = Inr [(0, 7 / 25)] \<and>
   find_similar_entries demo_encode ascii_alnum (pystr ''q'') [pystr ''a''] None (Some 0) = Inr [] \<and>
   find_similar_entries demo_encode ascii_alnum (pystr ''q'') [pystr ''a''] None (Some (1 / 100)) =
     Inr [pystr ''a'']"
  by (simp add: demo_eval upt_rec)

text \<open>
  Claim C4, at the input where the code departs from it.  The provider is
  single-precision and the similarity of the one entry to the query is the
  single-precision number nearest to 0.7, which is below 0.7.  The single-query form
  compares \<open>float(similarities[i])\<close> with the threshold 0.7 and returns nothing; the
  batch form compares the array element with the threshold converted to single
  precision, which is that same number, and returns the entry.
\<close>

theorem batch_of_one_differs_at_float32_threshold:
  "well_shaped float32_encode 2 \<and>
   to_float32 (7 / 10) = 11744051 / 16777216 \<and>
   candidate_scores float32_encode ascii_alnum (pystr ''q'') [pystr ''e''] =
     Inr [(0, 11744051 / 16777216)] \<and>
   find_similar_entries float32_encode ascii_alnum (pystr ''q'') [pystr ''e''] None
     (Some (7 / 10)) = Inr [] \<and>
   find_similar_entries_batch float32_encode ascii_alnum to_float32 [pystr ''q''] [pystr ''e'']
     None (Some (7 / 10)) = Inr [[pystr ''e'']]"
  using float32_well_shaped
  by (simp add: demo_eval demo_batch_eval float32_encode_def float32_embed_def to_float32_7_10
      upt_rec)

text \<open>
  Claim C8.  With a provider that keeps its contract the batch form does not fail: it
  returns one result per query, the result at the position of a blank or
  whitespace-only query is empty, and every other position holds the ranking of the
  valid entries by that query's row of the similarity matrix.  When the provider embeds
  each text independently of its batch, the result at each position is what the batch
  form returns for that query alone.
\<close>

theorem blank_query_in_batch:
  assumes "well_shaped encode d"
  shows "\<exists>rs. find_similar_entries_batch encode alnum to_dtype queries entries top_k threshold =
             Inr rs \<and>
           length rs = length queries \<and>
           (\<forall>i<length queries. strip (queries ! i) = [] \<longrightarrow> rs ! i = []) \<and>
           (\<forall>i<length queries.
              rs ! i = batch_row encode alnum to_dtype queries entries top_k threshold i) \<and>
           (per_item encode emb d \<longrightarrow>
              (\<forall>i<length queries.
                 find_similar_entries_batch encode alnum to_dtype [queries ! i] entries top_k
                   threshold = Inr [rs ! i]))"
proof -
  let ?rs = "map (batch_row encode alnum to_dtype queries entries top_k threshold)
               [0 ..< length queries]"
  have b: "find_similar_entries_batch encode alnum to_dtype queries entries top_k threshold =
      Inr ?rs"
    using assms by (rule batch_well_shaped)
  have blank: "\<forall>i<length queries. strip (queries ! i) = [] \<longrightarrow> ?rs ! i = []"
    by (simp add: batch_row_def)
  have alone: "\<forall>i<length queries.
        find_similar_entries_batch encode alnum to_dtype [queries ! i] entries top_k threshold =
          Inr [?rs ! i]"
    if "per_item encode emb d"
  proof (intro allI impI)
    fix i assume i: "i < length queries"
    have "find_similar_entries_batch encode alnum to_dtype [queries ! i] entries top_k threshold =
        Inr [batch_row encode alnum to_dtype [queries ! i] entries top_k threshold 0]"
      using batch_well_shaped[OF assms, of alnum to_dtype "[queries ! i]" entries top_k threshold]
      by simp
    also have "batch_row encode alnum to_dtype [queries ! i] entries top_k threshold 0 =
        batch_row encode alnum to_dtype queries entries top_k threshold i"
      using per_item_batch_row[OF that i] by simp
    finally show "find_similar_entries_batch encode alnum to_dtype [queries ! i] entries top_k
        threshold = Inr [?rs ! i]"
      using i by simp
  qed
  show ?thesis
    using b blank alone by (intro exI[of _ ?rs]) simp
qed

theorem blank_query_in_batch_witness:
  "well_shaped demo_encode 2 \<and>
   find_similar_entries_batch demo_encode ascii_alnum to_float32
     [pystr ''q'', pystr ''  '', pystr ''b'']
     [pystr ''a'', pystr ''b'', pystr '' '', pystr ''d'', pystr ''c''] (Some 2) (Some (1 / 10)) =
     Inr [[pystr ''c'', pystr ''b''], [], [pystr ''b'', pystr ''c'']] \<and>
   find_similar_entries_batch demo_encode ascii_alnum to_float32 [pystr ''b'']
     [pystr ''a'', pystr ''b'', pystr '' '', pystr ''d'', pystr ''c''] (Some 2) (Some (1 / 10)) =
     Inr [[pystr ''b'', pystr ''c'']]"
proof -
  let ?qs = "[pystr ''q'', pystr ''  '', pystr ''b'']"
  let ?es = "[pystr ''a'', pystr ''b'', pystr '' '', pystr ''d'', pystr ''c'']"
  have run: "find_similar_entries_batch demo_encode ascii_alnum to_float32 ?qs ?es (Some 2)
     (Some (1 / 10)) = Inr [[pystr ''c'', pystr ''b''], [], [pystr ''b'', pystr ''c'']]"
    by (simp add: demo_eval demo_batch_eval to_float32_1_10 upt_rec)
  obtain rs where rs:
    "find_similar_entries_batch demo_encode ascii_alnum to_float32 ?qs ?es (Some 2)
       (Some (1 / 10)) = Inr rs"
    "per_item demo_encode demo_embed 2 \<longrightarrow>
       (\<forall>i<length ?qs. find_similar_entries_batch demo_encode ascii_alnum to_float32 [?qs ! i]
           ?es (Some 2) (Some (1 / 10)) = Inr [rs ! i])"
    using blank_query_in_batch[OF demo_well_shaped, of ascii_alnum to_float32 ?qs ?es "Some 2"
        "Some (1 / 10)" demo_embed]
    by blast
  have "rs = [[pystr ''c'', pystr ''b''], [], [pystr ''b'', pystr ''c'']]"
    using rs(1) run by simp
  moreover have "find_similar_entries_batch demo_encode ascii_alnum to_float32 [?qs ! 2] ?es
      (Some 2) (Some (1 / 10)) = Inr [rs ! 2]"
  proof -
    have "\<forall>i<length ?qs. find_similar_entries_batch demo_encode ascii_alnum to_float32 [?qs ! i]
        ?es (Some 2) (Some (1 / 10)) = Inr [rs ! i]"
      using rs(2) demo_per_item by blast
    from this[rule_format, of 2] show ?thesis by simp
  qed
  ultimately show ?thesis using run demo_well_shaped by simp
qed

end
